theory Spec2Isabelle
  imports Main "HOL-Library.Word"
begin

unbundle bit_operations_syntax

section \<open>Rulesets of the variant engine: src/src/variant.cpp\<close>

text \<open>
  The file embeds \<^verbatim>\<open>Variant::conclude\<close>, \<^verbatim>\<open>VariantMap::add\<close> and
  \<^verbatim>\<open>VariantMap::parse_istream\<close>. The headers the source includes (variant.h, piece.h,
  parser.h and the engine's types) are not among the sources, so every constant, table
  size and helper they declare is a field of the parameter record \<open>Env\<close> (or of
  \<open>Collab\<close> for the attribute parser), and the theorems hold for every value of them.
  C++ \<^verbatim>\<open>int\<close> values are integers reduced to 32 bits in two's complement when they
  are computed, and \<^verbatim>\<open>size_t\<close> values integers reduced to 64 bits (subsection
  "Machine integers"); the one counter that is left unreduced, \<^verbatim>\<open>nnueMaxPieces\<close>, says
  so where it is defined.
\<close>

subsection \<open>Types and the parameters taken from the missing headers\<close>

datatype Color = WHITE | BLACK

datatype Direction = EAST | NORTH | NORTH_EAST | SOUTH_EAST

type_synonym PieceType = nat
type_synonym Piece = nat
type_synonym PieceSet = "64 word"
type_synonym Bitboard = nat
type_synonym Square = int

text \<open>\<^verbatim>\<open>~c\<close> on a colour.\<close>

fun flip_color :: "Color \<Rightarrow> Color" where
  "flip_color WHITE = BLACK"
| "flip_color BLACK = WHITE"

text \<open>
  \<^verbatim>\<open>NO_PIECE_TYPE\<close> is the enumeration's zero: the source tests \<^verbatim>\<open>nnueKing\<close> both
  as \<^verbatim>\<open>nnueKing != NO_PIECE_TYPE\<close> and as \<^verbatim>\<open>if (nnueKing && ...)\<close>.
\<close>

definition NO_PIECE_TYPE :: PieceType where
  "NO_PIECE_TYPE = 0"

record Env =
  FILE_MAX :: int
  RANK_MAX :: int
  SQUARE_NB :: int
  KING :: PieceType
  COMMONER :: PieceType
  CHESS_PIECES :: PieceSet
  COMMON_FAIRY_PIECES :: PieceSet
  SHOGI_PIECES :: PieceSet
  COMMON_STEP_PIECES :: PieceSet
  VALUE_MATE :: int
  VALUE_DRAW :: int
  VALUE_NONE :: int
  make_piece :: "Color \<Rightarrow> PieceType \<Rightarrow> Piece"
  make_bitboard :: "Square \<Rightarrow> Bitboard"
  relative_square :: "Color \<Rightarrow> Square \<Rightarrow> int \<Rightarrow> Square"

subsection \<open>Piece sets: 64-bit masks with one bit per piece type\<close>

text \<open>
  \<^verbatim>\<open>piece_set(pt)\<close> is the mask \<^verbatim>\<open>1ULL << pt\<close>; the mixed operators
  \<^verbatim>\<open>PieceSet & PieceType\<close> and \<^verbatim>\<open>PieceSet ^= PieceType\<close> go through it.
\<close>

definition piece_set :: "PieceType \<Rightarrow> PieceSet" where
  "piece_set pt = push_bit pt 1"

definition set_and_type :: "PieceSet \<Rightarrow> PieceType \<Rightarrow> PieceSet" where
  "set_and_type ps pt = ps AND piece_set pt"

definition set_xor_type :: "PieceSet \<Rightarrow> PieceType \<Rightarrow> PieceSet" where
  "set_xor_type ps pt = ps XOR piece_set pt"

text \<open>\<^verbatim>\<open>std::bitset<64>(ps).count()\<close>.\<close>

definition bitset_count :: "PieceSet \<Rightarrow> nat" where
  "bitset_count ps = length (filter (bit ps) [0..<64])"

text \<open>
  \<^verbatim>\<open>lsb(ps)\<close>: the index of the least significant set bit (the source only calls it on
  a non-empty set; on the empty set the model answers 0).
  \<^verbatim>\<open>pop_lsb(ps)\<close> returns that index and clears the bit in \<^verbatim>\<open>ps\<close>.
\<close>

definition lsb :: "PieceSet \<Rightarrow> PieceType" where
  "lsb ps = (case List.find (bit ps) [0..<64] of Some n \<Rightarrow> n | None \<Rightarrow> 0)"

definition pop_lsb :: "PieceSet \<Rightarrow> PieceType \<times> PieceSet" where
  "pop_lsb ps = (lsb ps, unset_bit (lsb ps) ps)"

subsection \<open>Machine integers\<close>

text \<open>
  \<^verbatim>\<open>int\<close> is 32 bits wide, \<^verbatim>\<open>size_t\<close> 64 bits. \<open>int32 x\<close> is the \<^verbatim>\<open>int\<close> that
  holds the integer \<open>x\<close>: \<open>x\<close> itself from \<open>- 2^31\<close> to \<open>2^31 - 1\<close>, and otherwise the
  value in that range that differs from \<open>x\<close> by a multiple of \<open>2^32\<close>. This is the
  conversion of a \<^verbatim>\<open>size_t\<close> to \<^verbatim>\<open>int\<close>, and it is what the compiled arithmetic on
  \<^verbatim>\<open>int\<close> leaves when a result does not fit (the language leaves that case
  undefined). \<open>size_t x\<close> is the \<^verbatim>\<open>size_t\<close> that holds \<open>x\<close>, also for a negative \<open>x\<close>
  converted from \<^verbatim>\<open>int\<close>: \<open>x\<close> modulo \<open>2^64\<close>. Sums, differences and products
  commute with both reductions (lemmas \<open>int32_arith\<close> and \<open>int32_size_t\<close> below), so
  an expression built from them is reduced once, at its end; a quotient is not, and its
  operands are reduced before the division.
\<close>

definition int32 :: "int \<Rightarrow> int" where
  "int32 x = (x + 2147483648) mod 4294967296 - 2147483648"

definition size_t :: "int \<Rightarrow> int" where
  "size_t x = x mod 18446744073709551616"

subsection \<open>Strings\<close>

text \<open>\<^verbatim>\<open>isspace\<close> in the "C" locale: space, and the controls 9 to 13.\<close>

definition isspace :: "char \<Rightarrow> bool" where
  "isspace c = (c = CHR '' '' \<or> c = CHR 0x09 \<or> c = CHR 0x0A \<or> c = CHR 0x0B
                \<or> c = CHR 0x0C \<or> c = CHR 0x0D)"

text \<open>
  \<^verbatim>\<open>s[i]\<close> on a \<^verbatim>\<open>std::string\<close>: the character at \<open>i\<close>; at \<open>i = size\<close> the
  terminating NUL (beyond it the source has no defined value; the model answers NUL too).
\<close>

definition str_at :: "string \<Rightarrow> nat \<Rightarrow> char" where
  "str_at s i = (if i < length s then s ! i else CHR 0x00)"

text \<open>\<^verbatim>\<open>s.substr(0, s.find(' '))\<close>: the prefix before the first space, all of \<open>s\<close>
  when it has none (\<^verbatim>\<open>npos\<close> as a length).\<close>

definition substr_to_space :: "string \<Rightarrow> string" where
  "substr_to_space s = takeWhile (\<lambda>c. c \<noteq> CHR '' '') s"

text \<open>\<^verbatim>\<open>std::count(s.begin(), s.end(), c)\<close>.\<close>

definition std_count :: "string \<Rightarrow> char \<Rightarrow> nat" where
  "std_count s c = length (filter (\<lambda>x. x = c) s)"

subsection \<open>The ruleset record\<close>

text \<open>
  The fields \<^verbatim>\<open>conclude\<close> reads or writes, the derived ones last. Arrays indexed by colour and piece (type)
  are functions; \<^verbatim>\<open>kingSquareIndex\<close> is a function on squares whose writes are checked
  against the table size \<^verbatim>\<open>SQUARE_NB\<close>; \<^verbatim>\<open>promotedPieceType\<close> is the array as a
  list. Enumerations the source only tests with \<^verbatim>\<open>!\<close> are their integer values.
\<close>

record Variant =
  maxRank :: int
  maxFile :: int
  pieceTypes :: PieceSet
  pieceToChar :: string
  pieceToCharSynonyms :: string
  startFen :: string
  doubleStep :: bool
  doubleStepRegion :: "Color \<Rightarrow> Bitboard"
  mobilityRegion :: "Color \<Rightarrow> PieceType \<Rightarrow> Bitboard"
  kingType :: PieceType
  cambodianMoves :: bool
  diagonalLines :: bool
  extinctionPieceCount :: int
  extinctionPieceTypes :: PieceSet
  promotionPawnTypes :: "Color \<Rightarrow> PieceSet"
  promotionPieceTypes :: "Color \<Rightarrow> PieceSet"
  promotedPieceType :: "PieceType list"
  pieceDrops :: bool
  capturesToHand :: bool
  mustDrop :: bool
  seirawanGating :: bool
  twoBoards :: bool
  extinctionValue :: int
  checkmateValue :: int
  stalemateValue :: int
  materialCounting :: nat
  flagRegion :: "Color \<Rightarrow> Bitboard"
  mustCapture :: bool
  checkCounting :: bool
  makpongRule :: bool
  connectN :: int
  blastOnCapture :: bool
  petrifyOnCaptureTypes :: PieceSet
  connectHorizontal :: bool
  connectVertical :: bool
  connectDiagonal :: bool
  fastAttacks :: bool
  fastAttacks2 :: bool
  nnueKing :: PieceType
  nnueUsePockets :: bool
  pieceSquareIndex :: "Color \<times> Piece \<Rightarrow> int"
  pieceHandIndex :: "Color \<times> Piece \<Rightarrow> int"
  kingSquareIndex :: "nat \<Rightarrow> int"
  nnueDimensions :: int
  nnueMaxPieces :: int
  endgameEval :: bool
  shogiStylePromotions :: bool
  connect_directions :: "Direction list"

subsection \<open>\<^verbatim>\<open>Variant::conclude\<close>, step by step (lines 148 to 295)\<close>

text \<open>Lines 150 to 153: the double-step flag and its two regions are made consistent.\<close>

definition enforce_doubleStep :: "Variant \<Rightarrow> Variant" where
  "enforce_doubleStep v =
     (let v1 = (if \<not> doubleStep v
                then v\<lparr>doubleStepRegion := (\<lambda>c. 0)\<rparr>
                else v)
      in if doubleStepRegion v1 WHITE = 0 \<and> doubleStepRegion v1 BLACK = 0
         then v1\<lparr>doubleStep := False\<rparr>
         else v1)"

text \<open>Lines 156 to 162: the loop over the piece types in play, stopped at the first
  piece type with a mobility region.\<close>

function restrictedMobility_loop :: "Variant \<Rightarrow> PieceSet \<Rightarrow> bool \<Rightarrow> bool" where
  "restrictedMobility_loop v ps restrictedMobility =
     (if \<not> restrictedMobility \<and> ps \<noteq> 0
      then (case pop_lsb ps of (pt, ps') \<Rightarrow>
              restrictedMobility_loop v ps'
                (if mobilityRegion v WHITE pt \<noteq> 0 \<or> mobilityRegion v BLACK pt \<noteq> 0
                 then True else restrictedMobility))
      else restrictedMobility)"
  by pat_completeness auto

lemma bit_lt_64: "bit (ps :: PieceSet) n \<Longrightarrow> n < 64"
  using bit_imp_le_length [of ps n] by simp

lemma lsb_bit: "ps \<noteq> 0 \<Longrightarrow> bit ps (lsb ps)"
proof -
  assume "ps \<noteq> 0"
  then obtain n where n: "bit ps n"
    by (auto simp: bit_eq_iff [where ?'a = "64 word"])
  with bit_lt_64 [OF n] have "\<exists>x\<in>set [0..<64]. bit ps x"
    by auto
  then obtain m where m: "List.find (bit ps) [0..<64] = Some m"
    by (cases "List.find (bit ps) [0..<64]") (auto simp: find_None_iff)
  then have "bit ps m"
    by (auto simp: find_Some_iff)
  with m show ?thesis
    by (simp add: lsb_def)
qed

lemma bitset_count_unset_bit:
  "bit ps n \<Longrightarrow> bitset_count (unset_bit n ps) < bitset_count ps"
proof -
  assume n: "bit ps n"
  have eq: "filter (bit (unset_bit n ps)) [0..<64]
              = filter (\<lambda>m. m \<noteq> n) (filter (bit ps) [0..<64])"
    by (auto simp: bit_unset_bit_iff intro: filter_cong)
  have "n \<in> set (filter (bit ps) [0..<64])"
    using n bit_lt_64 [OF n] by simp
  then have "length (filter (\<lambda>m. m \<noteq> n) (filter (bit ps) [0..<64]))
               < length (filter (bit ps) [0..<64])"
    by (intro length_filter_less [of n]) auto
  then show ?thesis
    by (simp add: bitset_count_def eq)
qed

lemma set_xor_type_unset_bit: "bit ps n \<Longrightarrow> set_xor_type ps n = unset_bit n ps"
  by (rule bit_word_eqI) (auto simp: set_xor_type_def piece_set_def bit_simps)

lemma set_and_type_bit: "set_and_type ps n \<noteq> 0 \<longleftrightarrow> bit ps n"
proof
  assume "set_and_type ps n \<noteq> 0"
  then obtain m where "bit (ps AND push_bit n 1) m"
    by (auto simp: set_and_type_def piece_set_def bit_eq_iff [where ?'a = "64 word"])
  then show "bit ps n"
    by (auto simp: bit_simps)
next
  assume n: "bit ps n"
  then have "bit (set_and_type ps n) n"
    using bit_lt_64 [OF n] by (auto simp: set_and_type_def piece_set_def bit_simps)
  then show "set_and_type ps n \<noteq> 0"
    by auto
qed

termination restrictedMobility_loop
  by (relation "measure (\<lambda>(v, ps, rm). bitset_count ps)")
     (auto simp: pop_lsb_def bitset_count_unset_bit lsb_bit)

declare restrictedMobility_loop.simps [simp del]

text \<open>Lines 175 to 177: the candidate anchor.\<close>

definition nnueKing_candidate :: "Env \<Rightarrow> Variant \<Rightarrow> PieceType" where
  "nnueKing_candidate E v =
     (if set_and_type (pieceTypes v) (KING E) \<noteq> 0 then KING E
      else if extinctionPieceCount v = 0
              \<and> set_and_type (extinctionPieceTypes v) (COMMONER E) \<noteq> 0 then COMMONER E
      else NO_PIECE_TYPE)"

text \<open>Lines 179 to 186: an anchor involved in promotion is dropped. \<^verbatim>\<open>std::find\<close> over
  the array \<^verbatim>\<open>promotedPieceType\<close> is list membership.\<close>

definition nnueKing_promotion :: "Variant \<Rightarrow> PieceType" where
  "nnueKing_promotion v =
     (if nnueKing v \<noteq> NO_PIECE_TYPE
      then (if set_and_type (promotionPawnTypes v WHITE OR promotionPawnTypes v BLACK)
                  (nnueKing v) \<noteq> 0
               \<or> set_and_type (promotionPieceTypes v WHITE OR promotionPieceTypes v BLACK)
                     (nnueKing v) \<noteq> 0
               \<or> nnueKing v \<in> set (promotedPieceType v)
            then NO_PIECE_TYPE else nnueKing v)
      else nnueKing v)"

text \<open>Lines 187 to 194: an anchor that is not there exactly once per colour is dropped.\<close>

definition nnueKing_unique :: "Env \<Rightarrow> Variant \<Rightarrow> PieceType" where
  "nnueKing_unique E v =
     (if nnueKing v \<noteq> NO_PIECE_TYPE
      then (let fenBoard = substr_to_space (startFen v)
            in if std_count fenBoard
                    (str_at (pieceToChar v) (make_piece E WHITE (nnueKing v))) \<noteq> 1
                  \<or> std_count fenBoard
                       (str_at (pieceToChar v) (make_piece E BLACK (nnueKing v))) \<noteq> 1
               then NO_PIECE_TYPE else nnueKing v)
      else nnueKing v)"

text \<open>Lines 196 to 200: the sizes of the feature space. \<^verbatim>\<open>(nnueKing != NO_PIECE_TYPE)\<close>
  in arithmetic is 1 or 0. Lines 196 and 198 compute in \<^verbatim>\<open>int\<close>. In lines 199 and
  200 \<^verbatim>\<open>count()\<close> is a \<^verbatim>\<open>size_t\<close>, so every operand is converted to \<^verbatim>\<open>size_t\<close>, the
  expression is computed in \<^verbatim>\<open>size_t\<close>, and the result is converted to \<^verbatim>\<open>int\<close> when
  it is stored.\<close>

definition nnueSquares :: "Variant \<Rightarrow> int" where
  "nnueSquares v = int32 ((maxRank v + 1) * (maxFile v + 1))"

definition nnueUsePockets_value :: "Variant \<Rightarrow> bool" where
  "nnueUsePockets_value v =
     ((pieceDrops v \<and> (capturesToHand v
                        \<or> (\<not> mustDrop v \<and> bitset_count (pieceTypes v) \<noteq> 1)))
      \<or> seirawanGating v)"

definition nnuePockets :: "Variant \<Rightarrow> int" where
  "nnuePockets v = (if nnueUsePockets v then int32 (2 * (maxFile v + 1)) else 0)"

definition has_nnueKing :: "Variant \<Rightarrow> int" where
  "has_nnueKing v = (if nnueKing v \<noteq> NO_PIECE_TYPE then 1 else 0)"

definition nnueNonDropPieceIndices :: "Variant \<Rightarrow> int" where
  "nnueNonDropPieceIndices v =
     int32 (size_t ((2 * int (bitset_count (pieceTypes v)) - size_t (has_nnueKing v))
                    * size_t (nnueSquares v)))"

definition nnuePieceIndices :: "Variant \<Rightarrow> int" where
  "nnuePieceIndices v =
     int32 (size_t (size_t (nnueNonDropPieceIndices v)
                    + 2 * (int (bitset_count (pieceTypes v)) - size_t (has_nnueKing v))
                        * size_t (nnuePockets v)))"

text \<open>Lines 209 to 215: the four writes for one colour \<open>c\<close> and piece type \<open>pt\<close>, in the
  source's order (\<^verbatim>\<open>(pt != nnueKing)\<close> is 1 or 0), each value computed in
  \<^verbatim>\<open>int\<close>.\<close>

definition index_writes ::
  "Env \<Rightarrow> Variant \<Rightarrow> PieceType \<Rightarrow> int \<Rightarrow> Color
     \<Rightarrow> (Color \<times> Piece \<Rightarrow> int) \<times> (Color \<times> Piece \<Rightarrow> int)
     \<Rightarrow> (Color \<times> Piece \<Rightarrow> int) \<times> (Color \<times> Piece \<Rightarrow> int)" where
  "index_writes E v pt i c tabs =
     (case tabs of (psi, phi) \<Rightarrow>
        (let psi1 = psi((c, make_piece E c pt) := int32 (2 * i * nnueSquares v));
             psi2 = psi1((c, make_piece E (flip_color c) pt) :=
                      int32 ((2 * i + (if pt \<noteq> nnueKing v then 1 else 0)) * nnueSquares v));
             phi1 = phi((c, make_piece E c pt) :=
                      int32 (2 * i * nnuePockets v + nnueNonDropPieceIndices v));
             phi2 = phi1((c, make_piece E (flip_color c) pt) :=
                      int32 ((2 * i + 1) * nnuePockets v + nnueNonDropPieceIndices v))
         in (psi2, phi2)))"

text \<open>Lines 201 to 217: the loop over the piece types, the anchor last.\<close>

function pieceIndex_loop ::
  "Env \<Rightarrow> Variant \<Rightarrow> PieceSet \<Rightarrow> int
     \<Rightarrow> (Color \<times> Piece \<Rightarrow> int) \<times> (Color \<times> Piece \<Rightarrow> int)
     \<Rightarrow> (Color \<times> Piece \<Rightarrow> int) \<times> (Color \<times> Piece \<Rightarrow> int)" where
  "pieceIndex_loop E v ps i tabs =
     (if ps \<noteq> 0
      then (let pt = lsb (if ps \<noteq> piece_set (nnueKing v)
                          then ps AND NOT (piece_set (nnueKing v)) else ps);
                ps' = set_xor_type ps pt
            in pieceIndex_loop E v ps' (i + 1)
                 (index_writes E v pt i BLACK (index_writes E v pt i WHITE tabs)))
      else tabs)"
  by pat_completeness auto

lemma bit_piece_set: "bit (piece_set k) n \<longleftrightarrow> n = k \<and> k < 64"
  by (auto simp: piece_set_def bit_exp_iff)

lemma lsb_skip_bit:
  assumes "ps \<noteq> 0"
  shows "bit ps (lsb (if ps \<noteq> piece_set k then ps AND NOT (piece_set k) else ps))"
proof (cases "ps \<noteq> piece_set k")
  case False
  with assms show ?thesis
    by (simp add: lsb_bit)
next
  case True
  have "ps AND NOT (piece_set k) \<noteq> 0"
  proof
    assume z: "ps AND NOT (piece_set k) = 0"
    have sub: "n = k \<and> k < 64" if n: "bit ps n" for n
    proof -
      have "\<not> bit (ps AND NOT (piece_set k)) n"
        by (simp add: z)
      with n have "bit (piece_set k) n"
        using bit_lt_64 [OF n] by (simp add: bit_and_iff bit_not_iff)
      then show ?thesis
        by (simp add: bit_piece_set)
    qed
    from assms obtain m where m: "bit ps m"
      by (auto simp: bit_eq_iff [where ?'a = "64 word"])
    with sub have k: "bit ps k" "k < 64"
      by auto
    have "bit ps n = bit (piece_set k) n" for n
      using sub [of n] k by (auto simp: bit_piece_set)
    then have "ps = piece_set k"
      by (rule bit_eqI)
    with True show False
      by simp
  qed
  then have "bit (ps AND NOT (piece_set k)) (lsb (ps AND NOT (piece_set k)))"
    by (rule lsb_bit)
  with True show ?thesis
    by (simp add: bit_and_iff)
qed

termination pieceIndex_loop
  by (relation "measure (\<lambda>(E, v, ps, i, tabs). bitset_count ps)")
     (auto simp: set_xor_type_unset_bit bitset_count_unset_bit lsb_skip_bit)

declare pieceIndex_loop.simps [simp del]

text \<open>C++ integer division truncates towards zero.\<close>

definition cpp_div :: "int \<Rightarrow> int \<Rightarrow> int" where
  "cpp_div a b = sgn a * sgn b * (\<bar>a\<bar> div \<bar>b\<bar>)"

text \<open>Line 228: the square of the bitboard layout that holds square \<open>s\<close> of the
  ruleset's own board. The loop reaches the line with \<open>0 \<le> s < nnueSquares\<close>, so the
  divisor is not zero there (lemma \<open>bitboardSquare_divisor\<close>).\<close>

definition bitboardSquare :: "Env \<Rightarrow> Variant \<Rightarrow> Square \<Rightarrow> Square" where
  "bitboardSquare E v s =
     int32 (s + cpp_div s (int32 (maxFile v + 1)) * (FILE_MAX E - maxFile v))"

text \<open>Lines 229 to 231: whether the anchor may stand on square \<open>s\<close>.\<close>

definition king_square_available :: "Env \<Rightarrow> Variant \<Rightarrow> Square \<Rightarrow> bool" where
  "king_square_available E v s =
     (mobilityRegion v WHITE (nnueKing v) = 0 \<or> mobilityRegion v BLACK (nnueKing v) = 0
      \<or> mobilityRegion v WHITE (nnueKing v) AND make_bitboard E (bitboardSquare E v s) \<noteq> 0
      \<or> mobilityRegion v BLACK (nnueKing v)
           AND make_bitboard E (relative_square E BLACK (bitboardSquare E v s) (maxRank v))
         \<noteq> 0)"

text \<open>A write \<^verbatim>\<open>kingSquareIndex[s] = x\<close> into the table of \<^verbatim>\<open>SQUARE_NB\<close> entries:
  \<open>None\<close> when \<open>s\<close> is outside the table.\<close>

definition write_kingSquareIndex ::
  "Env \<Rightarrow> (nat \<Rightarrow> int) \<Rightarrow> Square \<Rightarrow> int \<Rightarrow> (nat \<Rightarrow> int) option" where
  "write_kingSquareIndex E tab s x =
     (if 0 \<le> s \<and> s < SQUARE_NB E then Some (tab(nat s := x)) else None)"

text \<open>Lines 226 to 235: the loop over the squares, with the table and the counter
  \<^verbatim>\<open>nnueKingSquare\<close> as its state.\<close>

function kingSquare_loop ::
  "Env \<Rightarrow> Variant \<Rightarrow> Square \<Rightarrow> (nat \<Rightarrow> int) \<times> int \<Rightarrow> ((nat \<Rightarrow> int) \<times> int) option" where
  "kingSquare_loop E v s st =
     (case st of (tab, nnueKingSquare) \<Rightarrow>
        if s < nnueSquares v
        then (if king_square_available E v s
              then (case write_kingSquareIndex E tab s
                           (int32 (nnueKingSquare * nnuePieceIndices v)) of
                      None \<Rightarrow> None
                    | Some tab' \<Rightarrow> kingSquare_loop E v (s + 1) (tab', nnueKingSquare + 1))
              else kingSquare_loop E v (s + 1) (tab, nnueKingSquare))
        else Some (tab, nnueKingSquare))"
  by pat_completeness auto
termination
  by (relation "measure (\<lambda>(E, v, s, st). nat (nnueSquares v - s))") auto

declare kingSquare_loop.simps [simp del]

text \<open>Lines 224 to 237: the \<^verbatim>\<open>else\<close> belongs to the \<^verbatim>\<open>if\<close>, whose body is the loop.\<close>

definition kingSquare_table :: "Env \<Rightarrow> Variant \<Rightarrow> ((nat \<Rightarrow> int) \<times> int) option" where
  "kingSquare_table E v =
     (if nnueKing v \<noteq> 0 \<and> nnueSquares v \<le> SQUARE_NB E
      then kingSquare_loop E v 0 (kingSquareIndex v, 0)
      else (case write_kingSquareIndex E (kingSquareIndex v) 0
                   (int32 (0 * nnuePieceIndices v)) of
              None \<Rightarrow> None
            | Some tab' \<Rightarrow> Some (tab', 1)))"

text \<open>
  The squares from \<open>s\<close> on to which the loop of lines 226 to 235 gives an entry, in
  ascending order: those below the square count that pass the test of lines 229 to 231.
  \<open>king_squares\<close> is the whole list, the squares the anchor can stand on.
  \<open>king_rank\<close> counts such squares in \<open>s \<le> .. < q\<close>.
\<close>

definition king_squares_from :: "Env \<Rightarrow> Variant \<Rightarrow> Square \<Rightarrow> Square list" where
  "king_squares_from E v s = filter (king_square_available E v) [s..nnueSquares v - 1]"

definition king_squares :: "Env \<Rightarrow> Variant \<Rightarrow> Square list" where
  "king_squares E v = king_squares_from E v 0"

definition king_rank :: "Env \<Rightarrow> Variant \<Rightarrow> Square \<Rightarrow> Square \<Rightarrow> int" where
  "king_rank E v s q = int (length (filter (king_square_available E v) [s..q - 1]))"

text \<open>Lines 245 to 249: the scan of the starting position, one character at a time, up to
  the first white-space character or the end.\<close>

fun count_pieces :: "Variant \<Rightarrow> string \<Rightarrow> int \<Rightarrow> int" where
  "count_pieces v [] n = n"
| "count_pieces v (token # ss) n =
     (if isspace token then n
      else count_pieces v ss
             (if token \<in> set (pieceToChar v) \<or> token \<in> set (pieceToCharSynonyms v)
              then n + 1 else n))"

text \<open>Lines 163 to 172. \<open>restrictedMobility\<close> is the local variable of the same name.\<close>

definition set_fastAttacks :: "Env \<Rightarrow> bool \<Rightarrow> Variant \<Rightarrow> Variant" where
  "set_fastAttacks E restrictedMobility v =
     v\<lparr>fastAttacks :=
         (pieceTypes v AND NOT (CHESS_PIECES E OR COMMON_FAIRY_PIECES E) = 0
          \<and> kingType v = KING E
          \<and> \<not> restrictedMobility
          \<and> \<not> cambodianMoves v
          \<and> \<not> diagonalLines v),
       fastAttacks2 :=
         (pieceTypes v AND NOT (SHOGI_PIECES E OR COMMON_STEP_PIECES E) = 0
          \<and> kingType v = KING E
          \<and> \<not> restrictedMobility
          \<and> \<not> cambodianMoves v
          \<and> \<not> diagonalLines v)\<rparr>"

text \<open>Lines 175 to 194: the three assignments to \<^verbatim>\<open>nnueKing\<close>, each reading the
  value the one before it stored.\<close>

definition set_nnueKing :: "Env \<Rightarrow> Variant \<Rightarrow> Variant" where
  "set_nnueKing E v =
     (let v1 = v\<lparr>nnueKing := nnueKing_candidate E v\<rparr>;
          v2 = v1\<lparr>nnueKing := nnueKing_promotion v1\<rparr>
      in v2\<lparr>nnueKing := nnueKing_unique E v2\<rparr>)"

text \<open>Line 197.\<close>

definition set_nnueUsePockets :: "Variant \<Rightarrow> Variant" where
  "set_nnueUsePockets v = v\<lparr>nnueUsePockets := nnueUsePockets_value v\<rparr>"

text \<open>Lines 201 to 217, with \<^verbatim>\<open>i = 0\<close> at the start.\<close>

definition set_pieceIndices :: "Env \<Rightarrow> Variant \<Rightarrow> Variant" where
  "set_pieceIndices E v =
     (let tabs = pieceIndex_loop E v (pieceTypes v) 0 (pieceSquareIndex v, pieceHandIndex v)
      in v\<lparr>pieceSquareIndex := fst tabs, pieceHandIndex := snd tabs\<rparr>)"

text \<open>Line 238, after the table of lines 224 to 237 has been written.\<close>

definition set_kingSquares :: "Variant \<Rightarrow> (nat \<Rightarrow> int) \<times> int \<Rightarrow> Variant" where
  "set_kingSquares v st =
     (case st of (tab, nnueKingSquare) \<Rightarrow>
        v\<lparr>kingSquareIndex := tab,
          nnueDimensions := int32 (nnueKingSquare * nnuePieceIndices v)\<rparr>)"

text \<open>Lines 241 to 251. The counter is at most the number of characters before the first
  white space; it and its double are left unreduced (they fit in \<^verbatim>\<open>int\<close> for a
  starting position of fewer than \<open>2^30\<close> characters).\<close>

definition nnueMaxPieces_value :: "Variant \<Rightarrow> int" where
  "nnueMaxPieces_value v =
     (let pieces = count_pieces v (startFen v) 0
      in if twoBoards v then pieces * 2 else pieces)"

definition set_nnueMaxPieces :: "Variant \<Rightarrow> Variant" where
  "set_nnueMaxPieces v = v\<lparr>nnueMaxPieces := nnueMaxPieces_value v\<rparr>"

text \<open>Lines 255 to 269. \<^verbatim>\<open>!x\<close> on a number, a set or a bitboard is \<open>x = 0\<close>.\<close>

definition set_endgameEval :: "Env \<Rightarrow> bool \<Rightarrow> Variant \<Rightarrow> Variant" where
  "set_endgameEval E restrictedMobility v =
     v\<lparr>endgameEval :=
         (extinctionValue v = VALUE_NONE E
          \<and> checkmateValue v = - VALUE_MATE E
          \<and> stalemateValue v = VALUE_DRAW E
          \<and> materialCounting v = 0
          \<and> \<not> (flagRegion v WHITE \<noteq> 0 \<or> flagRegion v BLACK \<noteq> 0)
          \<and> \<not> mustCapture v
          \<and> \<not> checkCounting v
          \<and> \<not> makpongRule v
          \<and> connectN v = 0
          \<and> \<not> blastOnCapture v
          \<and> petrifyOnCaptureTypes v = 0
          \<and> \<not> capturesToHand v
          \<and> \<not> twoBoards v
          \<and> \<not> restrictedMobility
          \<and> kingType v = KING E)\<rparr>"

text \<open>Lines 271 to 277.\<close>

definition set_shogiStylePromotions :: "Variant \<Rightarrow> Variant" where
  "set_shogiStylePromotions v =
     v\<lparr>shogiStylePromotions :=
         list_ex (\<lambda>current. current \<noteq> NO_PIECE_TYPE) (promotedPieceType v)\<rparr>"

text \<open>Lines 279 to 292: the list is cleared, then filled.\<close>

definition connect_directions_value :: "Variant \<Rightarrow> Direction list" where
  "connect_directions_value v =
     (let d0 = [];
          d1 = (if connectHorizontal v then d0 @ [EAST] else d0);
          d2 = (if connectVertical v then d1 @ [NORTH] else d1)
      in if connectDiagonal v then d2 @ [NORTH_EAST] @ [SOUTH_EAST] else d2)"

definition set_connect_directions :: "Variant \<Rightarrow> Variant" where
  "set_connect_directions v = v\<lparr>connect_directions := connect_directions_value v\<rparr>"

text \<open>
  \<^verbatim>\<open>Variant::conclude\<close>: the steps in the source's order. The result is \<open>None\<close> when
  a write to \<^verbatim>\<open>kingSquareIndex\<close> would fall outside the table.
\<close>

definition conclude :: "Env \<Rightarrow> Variant \<Rightarrow> Variant option" where
  "conclude E v0 =
     (let v1 = enforce_doubleStep v0;
          restrictedMobility = restrictedMobility_loop v1 (pieceTypes v1) False;
          v2 = set_fastAttacks E restrictedMobility v1;
          v3 = set_nnueKing E v2;
          v4 = set_nnueUsePockets v3;
          v5 = set_pieceIndices E v4
      in case kingSquare_table E v5 of
           None \<Rightarrow> None
         | Some st \<Rightarrow>
             (let v6 = set_kingSquares v5 st;
                  v7 = set_nnueMaxPieces v6;
                  v8 = set_endgameEval E restrictedMobility v7;
                  v9 = set_shogiStylePromotions v8
              in Some (set_connect_directions v9)))"

subsection \<open>\<^verbatim>\<open>VariantMap::add\<close> (lines 378 to 380)\<close>

text \<open>
  The registry. The class \<^verbatim>\<open>VariantMap\<close> is declared in variant.h, which is not among the
  sources; the member calls this file makes on it (\<^verbatim>\<open>insert\<close> of a \<^verbatim>\<open>std::pair\<close>,
  \<^verbatim>\<open>find\<close> against \<^verbatim>\<open>end\<close>, \<^verbatim>\<open>operator[]\<close>, \<^verbatim>\<open>erase\<close> by key, \<^verbatim>\<open>clear\<close>, iteration over
  \<^verbatim>\<open>first\<close> and \<^verbatim>\<open>second\<close>) are those of \<^verbatim>\<open>std::map\<close> from names to ruleset pointers,
  the "underlying ordered map" of the spec. The model is a finite map from names to
  rulesets held by value: a ruleset is owned by one entry and copied, never shared.
\<close>

type_synonym Registry = "string \<rightharpoonup> Variant"

text \<open>\<^verbatim>\<open>std::map::insert\<close> of one pair: a key that is present keeps its entry.\<close>

definition std_map_insert :: "('k \<rightharpoonup> 'a) \<Rightarrow> 'k \<Rightarrow> 'a \<Rightarrow> ('k \<rightharpoonup> 'a)" where
  "std_map_insert m k x = (case m k of None \<Rightarrow> m(k \<mapsto> x) | Some y \<Rightarrow> m)"

definition VariantMap_add :: "Env \<Rightarrow> string \<Rightarrow> Variant \<Rightarrow> Registry \<Rightarrow> Registry option" where
  "VariantMap_add E s v reg =
     (case conclude E v of
        None \<Rightarrow> None
      | Some v' \<Rightarrow> Some (std_map_insert reg s v'))"

subsection \<open>Input streams\<close>

text \<open>
  A \<^verbatim>\<open>std::istream\<close> over a fixed text: the characters not yet read and the two state
  bits the source can see. A stream is good when neither bit is set; every input
  function first sets \<^verbatim>\<open>failbit\<close> on a stream that is not good and then reads nothing
  (the sentry); reading at the end of the text sets \<^verbatim>\<open>eofbit\<close>. A stream converts
  to \<^verbatim>\<open>true\<close> when \<^verbatim>\<open>failbit\<close> is not set.
\<close>

record istream =
  buf :: string
  eofbit :: bool
  failbit :: bool

definition good :: "istream \<Rightarrow> bool" where
  "good f \<longleftrightarrow> \<not> eofbit f \<and> \<not> failbit f"

text \<open>\<^verbatim>\<open>std::stringstream(str)\<close>, read from.\<close>

definition stringstream :: "string \<Rightarrow> istream" where
  "stringstream str = \<lparr>buf = str, eofbit = False, failbit = False\<rparr>"

text \<open>\<^verbatim>\<open>peek()\<close>: the next character, or \<open>None\<close> for \<^verbatim>\<open>EOF\<close>.\<close>

definition peek :: "istream \<Rightarrow> char option \<times> istream" where
  "peek f =
     (if \<not> good f then (None, f\<lparr>failbit := True\<rparr>)
      else (case buf f of
              [] \<Rightarrow> (None, f\<lparr>eofbit := True\<rparr>)
            | c # cs \<Rightarrow> (Some c, f)))"

text \<open>\<^verbatim>\<open>get()\<close>: reads one character, or answers \<^verbatim>\<open>EOF\<close> and sets \<^verbatim>\<open>failbit\<close>.\<close>

definition get :: "istream \<Rightarrow> char option \<times> istream" where
  "get f =
     (if \<not> good f then (None, f\<lparr>failbit := True\<rparr>)
      else (case buf f of
              [] \<Rightarrow> (None, f\<lparr>eofbit := True, failbit := True\<rparr>)
            | c # cs \<Rightarrow> (Some c, f\<lparr>buf := cs\<rparr>)))"

text \<open>
  \<^verbatim>\<open>std::getline(f, str, delim)\<close>: on a stream that is not good \<open>str\<close> is left as it
  was. Otherwise \<open>str\<close> becomes the characters before the first \<open>delim\<close>, which is read
  and dropped; without one, all the characters, and \<^verbatim>\<open>eofbit\<close> is set; \<^verbatim>\<open>failbit\<close> is
  set when nothing at all was read.
\<close>

definition getline :: "istream \<Rightarrow> char \<Rightarrow> string \<Rightarrow> istream \<times> string" where
  "getline f delim str =
     (if \<not> good f then (f\<lparr>failbit := True\<rparr>, str)
      else (let taken = takeWhile (\<lambda>c. c \<noteq> delim) (buf f);
                rest = dropWhile (\<lambda>c. c \<noteq> delim) (buf f)
            in case rest of
                 [] \<Rightarrow> (f\<lparr>buf := [], eofbit := True, failbit := (taken = [])\<rparr>, taken)
               | d # rest' \<Rightarrow> (f\<lparr>buf := rest'\<rparr>, taken)))"

text \<open>\<^verbatim>\<open>f >> std::ws\<close>: skips white space; \<^verbatim>\<open>eofbit\<close> when the text ends there.\<close>

definition ws :: "istream \<Rightarrow> istream" where
  "ws f =
     (if \<not> good f then f\<lparr>failbit := True\<rparr>
      else (let rest = dropWhile isspace (buf f)
            in f\<lparr>buf := rest, eofbit := (rest = [])\<rparr>))"

subsection \<open>\<^verbatim>\<open>VariantMap::parse_istream\<close> (lines 300 to 357)\<close>

text \<open>
  The attribute parser \<^verbatim>\<open>VariantParser<DoCheck>\<close> (parser.h) and \<^verbatim>\<open>Variant::init\<close>
  (variant.h) are not among the sources. They are parameters: \<open>parse_default\<close> is
  \<^verbatim>\<open>VariantParser<DoCheck>(attribs).parse()\<close>, \<open>parse_template\<close> is
  \<^verbatim>\<open>VariantParser<DoCheck>(attribs).parse(v)\<close>, each with the lines it writes to
  \<^verbatim>\<open>std::cerr\<close>; \<open>variant_init\<close> is \<^verbatim>\<open>v->init()\<close>.
\<close>

type_synonym Config = "string \<rightharpoonup> string"

record Collab =
  parse_default :: "bool \<Rightarrow> Config \<Rightarrow> Variant \<times> string list"
  parse_template :: "bool \<Rightarrow> Config \<Rightarrow> Variant \<Rightarrow> Variant \<times> string list"
  variant_init :: "Variant \<Rightarrow> Variant"

text \<open>
  The state of \<^verbatim>\<open>parse_istream\<close>: the stream \<^verbatim>\<open>file\<close>, the local strings (they keep their value
  from one iteration to the next; \<^verbatim>\<open>value\<close> is \<open>value_str\<close>), the registry \<^verbatim>\<open>variants\<close> (the one global object, on
  which the function is called), the list \<^verbatim>\<open>varsToErase\<close>, and the lines written to
  \<^verbatim>\<open>std::cerr\<close>.
\<close>

record pstate =
  file_stream :: istream
  variant :: string
  variant_template :: string
  key :: string
  value_str :: string
  input :: string
  variants :: Registry
  varsToErase :: "string list"
  cerr :: "string list"

text \<open>Line 303: the lines before the first one that starts with \<^verbatim>\<open>[\<close> are skipped.\<close>

function skip_preamble :: "istream \<times> string \<Rightarrow> istream \<times> string" where
  "skip_preamble st =
     (case st of (f, inp) \<Rightarrow>
        (case peek f of (c, f1) \<Rightarrow>
           if c \<noteq> Some (CHR ''['')
           then (case getline f1 (CHR 0x0A) inp of (f2, inp') \<Rightarrow>
                   if \<not> failbit f2 then skip_preamble (f2, inp') else (f2, inp'))
           else (f1, inp)))"
  by pat_completeness auto


lemma dropWhile_Cons_length:
  "dropWhile P xs = y # ys \<Longrightarrow> length ys < length xs"
  using length_dropWhile_le [of P xs] by simp

lemma getline_cases:
  obtains (bad) "\<not> good f" "getline f d str = (f\<lparr>failbit := True\<rparr>, str)"
  | (last_line) "good f" "dropWhile (\<lambda>c. c \<noteq> d) (buf f) = []"
      "getline f d str = (f\<lparr>buf := [], eofbit := True, failbit := (buf f = [])\<rparr>, buf f)"
  | (line) rest where "good f"
      "buf f = takeWhile (\<lambda>c. c \<noteq> d) (buf f) @ d # rest"
      "getline f d str = (f\<lparr>buf := rest\<rparr>, takeWhile (\<lambda>c. c \<noteq> d) (buf f))"
proof (cases "good f")
  case False
  then show ?thesis
    by (intro bad) (simp_all add: getline_def)
next
  case True
  show ?thesis
  proof (cases "dropWhile (\<lambda>c. c \<noteq> d) (buf f)")
    case Nil
    then have "takeWhile (\<lambda>c. c \<noteq> d) (buf f) = buf f"
      by (metis append_Nil2 takeWhile_dropWhile_id)
    then have tw: "takeWhile (\<lambda>c. c \<noteq> d) (buf f) = buf f" .
    show ?thesis
    proof (intro last_line)
      show "getline f d str
              = (f\<lparr>buf := [], eofbit := True, failbit := (buf f = [])\<rparr>, buf f)"
        unfolding getline_def Let_def Nil tw using True by simp
    qed fact+
  next
    case (Cons x rest)
    then have "x = d"
      using hd_dropWhile [of "\<lambda>c. c \<noteq> d" "buf f"] by auto
    with Cons have "buf f = takeWhile (\<lambda>c. c \<noteq> d) (buf f) @ d # rest"
      by (metis takeWhile_dropWhile_id)
    then have bf: "buf f = takeWhile (\<lambda>c. c \<noteq> d) (buf f) @ d # rest" .
    show ?thesis
    proof (intro line [of rest])
      show "getline f d str = (f\<lparr>buf := rest\<rparr>, takeWhile (\<lambda>c. c \<noteq> d) (buf f))"
        unfolding getline_def Let_def Cons using True by simp
    qed fact+
  qed
qed

lemma getline_buf_le: "length (buf (fst (getline f d str))) \<le> length (buf f)"
proof (cases rule: getline_cases [of f d str])
  case (line rest)
  have "length rest \<le> length (takeWhile (\<lambda>c. c \<noteq> d) (buf f) @ d # rest)"
    by simp
  with line show ?thesis
    by simp
qed simp_all

lemma getline_buf_less:
  assumes "\<not> failbit (fst (getline f d str))"
  shows "length (buf (fst (getline f d str))) < length (buf f)"
proof (cases rule: getline_cases [of f d str])
  case (line rest)
  have "length rest < length (takeWhile (\<lambda>c. c \<noteq> d) (buf f) @ d # rest)"
    by simp
  with line show ?thesis
    by simp
qed (use assms in simp_all)

lemma getline_failbit: "failbit f \<Longrightarrow> failbit (fst (getline f d str))"
  by (simp add: getline_def good_def)

lemma peek_buf: "buf (snd (peek f)) = buf f"
  by (simp add: peek_def split: list.splits)

termination skip_preamble
proof (relation "measure (\<lambda>(f, inp). length (buf f))", goal_cases)
  case 1
  show ?case by simp
next
  case 2
  then show ?case
    by (metis getline_buf_less peek_buf fst_conv snd_conv in_measure case_prod_conv)
qed


declare skip_preamble.simps [simp del]

text \<open>Lines 309 and 310: the header is split at its first colon; the template is what
  follows, up to a line break, and is empty when nothing could be read for it.\<close>

definition parse_header :: "pstate \<Rightarrow> pstate" where
  "parse_header st =
     (case getline (stringstream (variant st)) (CHR '':'') (variant st) of (ss1, variant') \<Rightarrow>
        (case getline ss1 (CHR 0x0A) (variant_template st) of (ss2, template') \<Rightarrow>
           if failbit ss2
           then st\<lparr>variant := variant', variant_template := []\<rparr>
           else st\<lparr>variant := variant', variant_template := template'\<rparr>))"

text \<open>\<^verbatim>\<open>key.erase(key.find_last_not_of(" ") + 1)\<close>: the spaces at the end are cut.\<close>

definition erase_trailing_spaces :: "string \<Rightarrow> string" where
  "erase_trailing_spaces s = rev (dropWhile (\<lambda>c. c = CHR '' '') (rev s))"

text \<open>Lines 321 to 324: the line in \<^verbatim>\<open>input\<close>, not a comment and read through the
  string stream \<open>ss\<close>, is split at its first \<^verbatim>\<open>=\<close> and stored.\<close>

definition store_attribute :: "bool \<Rightarrow> istream \<Rightarrow> pstate \<times> Config \<Rightarrow> pstate \<times> Config" where
  "store_attribute DoCheck ss sa =
     (case sa of (st, attribs) \<Rightarrow>
        (let st1 = (if DoCheck \<and> input st \<noteq> [] \<and> CHR ''='' \<notin> set (input st)
                    then st\<lparr>cerr := cerr st @
                           [''Invalid syntax: '' @ [CHR 0x27] @ input st @ [CHR 0x27] @ ''.'']\<rparr>
                    else st)
         in case getline ss (CHR ''='') (key st1) of (ss1, key') \<Rightarrow>
              (case getline (ws ss1) (CHR 0x0A) (value_str st1) of (ss2, value') \<Rightarrow>
                 if \<not> failbit ss2 \<and> key' \<noteq> []
                 then (st1\<lparr>key := erase_trailing_spaces key', value_str := value'\<rparr>,
                       attribs(erase_trailing_spaces key' \<mapsto> value'))
                 else (st1\<lparr>key := key', value_str := value'\<rparr>, attribs))))"

text \<open>Lines 316 to 325: one line of a section, already in \<^verbatim>\<open>input\<close>. A carriage return
  at its end is dropped; a line that starts with \<^verbatim>\<open>;\<close> or \<^verbatim>\<open>#\<close> is a comment.\<close>

definition read_attribute :: "bool \<Rightarrow> pstate \<times> Config \<Rightarrow> pstate \<times> Config" where
  "read_attribute DoCheck sa =
     (case sa of (st, attribs) \<Rightarrow>
        (let st1 = (if input st \<noteq> [] \<and> last (input st) = CHR 0x0D
                    then st\<lparr>input := butlast (input st)\<rparr> else st)
         in case peek (stringstream (input st1)) of (p1, ss1) \<Rightarrow>
              if p1 = Some (CHR '';'') then (st1, attribs)
              else (case peek ss1 of (p2, ss2) \<Rightarrow>
                      if p2 = Some (CHR ''#'') then (st1, attribs)
                      else store_attribute DoCheck ss2 (st1, attribs))))"

text \<open>Lines 314 to 326: the lines of a section, up to the next line that starts with
  \<^verbatim>\<open>[\<close> or the end of the stream.\<close>

function attribs_loop :: "bool \<Rightarrow> pstate \<times> Config \<Rightarrow> pstate \<times> Config" where
  "attribs_loop DoCheck sa =
     (case sa of (st, attribs) \<Rightarrow>
        (case peek (file_stream st) of (c, f1) \<Rightarrow>
           if c \<noteq> Some (CHR ''['')
           then (case getline f1 (CHR 0x0A) (input st) of (f2, inp') \<Rightarrow>
                   if \<not> failbit f2
                   then attribs_loop DoCheck
                          (read_attribute DoCheck (st\<lparr>file_stream := f2, input := inp'\<rparr>, attribs))
                   else (st\<lparr>file_stream := f2, input := inp'\<rparr>, attribs))
           else (st\<lparr>file_stream := f1\<rparr>, attribs)))"
  by pat_completeness auto

lemma store_attribute_file_stream:
  "file_stream (fst (store_attribute DoCheck ss (st, attribs))) = file_stream st"
  by (simp add: store_attribute_def Let_def split_beta)

lemma read_attribute_file_stream:
  "file_stream (fst (read_attribute DoCheck (st, attribs))) = file_stream st"
  by (simp add: read_attribute_def Let_def split_beta store_attribute_file_stream)

termination attribs_loop
proof (relation "measure (\<lambda>(DoCheck, sa). length (buf (file_stream (fst sa))))", goal_cases)
  case 1
  show ?case by simp
next
  case 2
  then show ?case
    by (simp add: read_attribute_file_stream)
       (metis getline_buf_less peek_buf fst_conv snd_conv)
qed

declare attribs_loop.simps [simp del]

text \<open>Lines 337 and 338: the section's ruleset, from a copy of the template put through
  \<^verbatim>\<open>init\<close> or from the parser's default, with the lines the parser writes to
  \<^verbatim>\<open>std::cerr\<close>. The source reaches the copy only when the template is registered.\<close>

definition build_variant :: "Collab \<Rightarrow> bool \<Rightarrow> Config \<Rightarrow> pstate \<Rightarrow> Variant \<times> string list" where
  "build_variant P DoCheck attribs st =
     (if variant_template st \<noteq> []
      then parse_template P DoCheck attribs
             (variant_init P (the (variants st (variant_template st))))
      else parse_default P DoCheck attribs)"

text \<open>Lines 329 to 349: the section's ruleset is built and, when its board extent is
  within the bounds, registered.\<close>

definition create_variant :: "Env \<Rightarrow> Collab \<Rightarrow> bool \<Rightarrow> Config \<Rightarrow> pstate \<Rightarrow> pstate option" where
  "create_variant E P DoCheck attribs st =
     (if variants st (variant st) \<noteq> None
      then Some (st\<lparr>cerr := cerr st @
                   [''Variant '' @ [CHR 0x27] @ variant st @ [CHR 0x27] @ '' already exists.'']\<rparr>)
      else if variant_template st \<noteq> [] \<and> variants st (variant_template st) = None
      then Some (st\<lparr>cerr := cerr st @
                   [''Variant template '' @ [CHR 0x27] @ variant_template st @ [CHR 0x27]
                    @ '' does not exist.'']\<rparr>)
      else
        (let st1 = (if DoCheck
                    then st\<lparr>cerr := cerr st @ [''Parsing variant: '' @ variant st]\<rparr>
                    else st);
             parsed = build_variant P DoCheck attribs st1;
             v = fst parsed;
             st2 = st1\<lparr>cerr := cerr st1 @ snd parsed\<rparr>
         in if maxFile v \<le> FILE_MAX E \<and> maxRank v \<le> RANK_MAX E
            then (case VariantMap_add E (variant st2) v (variants st2) of
                    None \<Rightarrow> None
                  | Some reg \<Rightarrow>
                      Some (if DoCheck
                            then st2\<lparr>variants := reg,
                                     varsToErase := varsToErase st2 @ [variant st2]\<rparr>
                            else st2\<lparr>variants := reg\<rparr>))
            else Some st2))"

text \<open>Line 306, the condition of the loop over the sections: the state after it, and
  whether the body is entered. \<^verbatim>\<open>file.get()\<close> as a condition is false only for the
  character NUL; the two \<^verbatim>\<open>getline\<close> calls read the header up to \<^verbatim>\<open>]\<close> and the rest
  of its line.\<close>

definition next_section :: "pstate \<Rightarrow> pstate \<times> bool" where
  "next_section st =
     (case get (file_stream st) of (c, f1) \<Rightarrow>
        if c = Some (CHR 0x00) then (st\<lparr>file_stream := f1\<rparr>, False)
        else (case getline f1 (CHR '']'') (variant st) of (f2, variant') \<Rightarrow>
          (case getline f2 (CHR 0x0A) (input st) of (f3, inp') \<Rightarrow>
             (st\<lparr>file_stream := f3, variant := variant', input := inp'\<rparr>, \<not> failbit f3))))"

text \<open>Lines 308 to 349, the body of that loop. \<^verbatim>\<open>attribs\<close> starts empty.\<close>

definition section_body :: "Env \<Rightarrow> Collab \<Rightarrow> bool \<Rightarrow> pstate \<Rightarrow> pstate option" where
  "section_body E P DoCheck st =
     (case attribs_loop DoCheck (parse_header st, Map.empty) of
        (st2, attribs) \<Rightarrow> create_variant E P DoCheck attribs st2)"

text \<open>Lines 306 to 350.\<close>

function sections_loop :: "Env \<Rightarrow> Collab \<Rightarrow> bool \<Rightarrow> pstate \<Rightarrow> pstate option" where
  "sections_loop E P DoCheck st =
     (case next_section st of (st1, entered) \<Rightarrow>
        if entered
        then (case section_body E P DoCheck st1 of
                None \<Rightarrow> None
              | Some st3 \<Rightarrow> sections_loop E P DoCheck st3)
        else Some st1)"
  by pat_completeness auto

lemma get_buf_le: "length (buf (snd (get f))) \<le> length (buf f)"
  by (simp add: get_def split: list.splits)

lemma get_buf_less:
  "\<not> failbit (snd (get f)) \<Longrightarrow> length (buf (snd (get f))) < length (buf f)"
  by (simp add: get_def split: list.splits if_splits)

lemma next_section_less:
  assumes "next_section st = (st1, True)"
  shows "length (buf (file_stream st1)) < length (buf (file_stream st))"
proof -
  obtain c f1 where g: "get (file_stream st) = (c, f1)"
    by (cases "get (file_stream st)")
  obtain f2 variant' where l1: "getline f1 (CHR '']'') (variant st) = (f2, variant')"
    by (cases "getline f1 (CHR '']'') (variant st)")
  obtain f3 inp' where l2: "getline f2 (CHR 0x0A) (input st) = (f3, inp')"
    by (cases "getline f2 (CHR 0x0A) (input st)")
  from assms g l1 l2 have st1: "file_stream st1 = f3" and ok: "\<not> failbit f3"
    by (auto simp: next_section_def split: if_splits)
  from ok l2 have "\<not> failbit f2"
    using getline_failbit [of f2 "CHR 0x0A" "input st"] by auto
  with l1 have "\<not> failbit f1"
    using getline_failbit [of f1 "CHR '']''" "variant st"] by auto
  with g have "length (buf f1) < length (buf (file_stream st))"
    using get_buf_less [of "file_stream st"] by simp
  moreover have "length (buf f2) \<le> length (buf f1)"
    using getline_buf_le [of f1 "CHR '']''" "variant st"] l1 by simp
  moreover have "length (buf f3) \<le> length (buf f2)"
    using getline_buf_le [of f2 "CHR 0x0A" "input st"] l2 by simp
  ultimately show ?thesis
    using st1 by simp
qed

lemma attribs_loop_stop:
  "fst (peek (file_stream st)) = Some (CHR ''['') \<Longrightarrow>
     attribs_loop DoCheck (st, attribs) = (st\<lparr>file_stream := snd (peek (file_stream st))\<rparr>, attribs)"
  by (subst attribs_loop.simps) (simp add: split_beta)

lemma attribs_loop_end:
  "fst (peek (file_stream st)) \<noteq> Some (CHR ''['') \<Longrightarrow>
   failbit (fst (getline (snd (peek (file_stream st))) (CHR 0x0A) (input st))) \<Longrightarrow>
     attribs_loop DoCheck (st, attribs) =
       (st\<lparr>file_stream := fst (getline (snd (peek (file_stream st))) (CHR 0x0A) (input st)),
           input := snd (getline (snd (peek (file_stream st))) (CHR 0x0A) (input st))\<rparr>,
        attribs)"
  by (subst attribs_loop.simps) (simp add: split_beta)

lemma attribs_loop_step:
  "fst (peek (file_stream st)) \<noteq> Some (CHR ''['') \<Longrightarrow>
   \<not> failbit (fst (getline (snd (peek (file_stream st))) (CHR 0x0A) (input st))) \<Longrightarrow>
     attribs_loop DoCheck (st, attribs) =
       attribs_loop DoCheck (read_attribute DoCheck
         (st\<lparr>file_stream := fst (getline (snd (peek (file_stream st))) (CHR 0x0A) (input st)),
             input := snd (getline (snd (peek (file_stream st))) (CHR 0x0A) (input st))\<rparr>,
          attribs))"
  by (subst attribs_loop.simps) (simp add: split_beta)

lemma attribs_loop_buf_le:
  "length (buf (file_stream (fst (attribs_loop DoCheck sa)))) \<le> length (buf (file_stream (fst sa)))"
proof (induction DoCheck sa rule: attribs_loop.induct)
  case (1 DoCheck sa)
  obtain st attribs where sa: "sa = (st, attribs)"
    by (cases sa)
  let ?f1 = "snd (peek (file_stream st))"
  let ?g = "getline ?f1 (CHR 0x0A) (input st)"
  show ?case
  proof (cases "fst (peek (file_stream st)) = Some (CHR ''['')")
    case True
    then show ?thesis
      by (simp add: sa attribs_loop_stop peek_buf)
  next
    case False
    show ?thesis
    proof (cases "failbit (fst ?g)")
      case True
      with False show ?thesis
        using getline_buf_le [of ?f1 "CHR 0x0A" "input st"]
        by (simp add: sa attribs_loop_end peek_buf)
    next
      case ok: False
      let ?st' = "st\<lparr>file_stream := fst ?g, input := snd ?g\<rparr>"
      have "length (buf (file_stream (fst (attribs_loop DoCheck
               (read_attribute DoCheck (?st', attribs))))))
            \<le> length (buf (file_stream (fst (read_attribute DoCheck (?st', attribs)))))"
        using False ok
        by (intro 1 [OF sa [symmetric], of "fst (peek (file_stream st))" ?f1 "fst ?g" "snd ?g"])
           simp_all
      also have "\<dots> = length (buf (fst ?g))"
        by (simp add: read_attribute_file_stream)
      also have "\<dots> \<le> length (buf (file_stream st))"
        using getline_buf_le [of ?f1 "CHR 0x0A" "input st"] by (simp add: peek_buf)
      finally show ?thesis
        using False ok by (simp add: sa attribs_loop_step)
    qed
  qed
qed

lemma parse_header_file_stream: "file_stream (parse_header st) = file_stream st"
  by (simp add: parse_header_def split_beta)

lemma create_variant_file_stream:
  "create_variant E P DoCheck attribs st = Some st' \<Longrightarrow> file_stream st' = file_stream st"
  by (auto simp: create_variant_def Let_def split: if_splits option.splits)

lemma section_body_buf_le:
  assumes "section_body E P DoCheck st = Some st'"
  shows "length (buf (file_stream st')) \<le> length (buf (file_stream st))"
proof -
  obtain st2 attribs where a: "attribs_loop DoCheck (parse_header st, Map.empty) = (st2, attribs)"
    by (cases "attribs_loop DoCheck (parse_header st, Map.empty)")
  with assms have "create_variant E P DoCheck attribs st2 = Some st'"
    by (simp add: section_body_def)
  then have "file_stream st' = file_stream st2"
    by (rule create_variant_file_stream)
  moreover have "length (buf (file_stream st2)) \<le> length (buf (file_stream (parse_header st)))"
    using attribs_loop_buf_le [of DoCheck "(parse_header st, Map.empty)"] a by simp
  ultimately show ?thesis
    by (simp add: parse_header_file_stream)
qed

lemma sections_loop_decrease:
  assumes "(st1, entered) = next_section st" and "entered"
    and "section_body E P DoCheck st1 = Some st3"
  shows "length (buf (file_stream st3)) < length (buf (file_stream st))"
proof -
  from assms(1,2) have "next_section st = (st1, True)"
    by simp
  from next_section_less [OF this] section_body_buf_le [OF assms(3)] show ?thesis
    by simp
qed

termination sections_loop
proof (relation "measure (\<lambda>(E, P, DoCheck, st). length (buf (file_stream st)))", goal_cases)
  case 1
  show ?case by simp
next
  case 2
  from sections_loop_decrease [OF 2] show ?case
    by simp
qed

declare sections_loop.simps [simp del]

text \<open>Lines 352 to 356: \<^verbatim>\<open>variants[tempVar]\<close> is deleted and the key erased.\<close>

definition erase_temporaries :: "pstate \<Rightarrow> pstate" where
  "erase_temporaries st =
     st\<lparr>variants := fold (\<lambda>tempVar reg. reg(tempVar := None)) (varsToErase st) (variants st)\<rparr>"

text \<open>
  \<^verbatim>\<open>parse_istream<DoCheck>\<close> on the stream \<open>f\<close> with the registry \<open>reg\<close>, in two steps:
  \<open>parse_sections\<close> is the state when the loop over the sections ends (line 350), and
  \<open>parse_istream\<close> answers the registry after the clean-up and what was written to
  \<^verbatim>\<open>std::cerr\<close>. The local strings start empty.
\<close>

definition parse_sections :: "Env \<Rightarrow> Collab \<Rightarrow> bool \<Rightarrow> istream \<Rightarrow> Registry \<Rightarrow> pstate option" where
  "parse_sections E P DoCheck f reg =
     (case skip_preamble (f, []) of (f1, inp) \<Rightarrow>
        sections_loop E P DoCheck
          \<lparr>file_stream = f1, variant = [], variant_template = [], key = [], value_str = [],
           input = inp, variants = reg, varsToErase = [], cerr = []\<rparr>)"

definition parse_istream ::
  "Env \<Rightarrow> Collab \<Rightarrow> bool \<Rightarrow> istream \<Rightarrow> Registry \<Rightarrow> (Registry \<times> string list) option" where
  "parse_istream E P DoCheck f reg =
     (case parse_sections E P DoCheck f reg of
        None \<Rightarrow> None
      | Some st \<Rightarrow> Some (variants (erase_temporaries st), cerr st))"

text \<open>The state in which the loop over the sections is entered (after line 305).\<close>

definition pass_start :: "istream \<Rightarrow> Registry \<Rightarrow> pstate" where
  "pass_start f reg =
     (case skip_preamble (f, []) of (f1, inp) \<Rightarrow>
        \<lparr>file_stream = f1, variant = [], variant_template = [], key = [], value_str = [],
         input = inp, variants = reg, varsToErase = [], cerr = []\<rparr>)"

text \<open>
  The states in which the condition of line 306 is evaluated during the pass that enters
  the loop in \<open>st0\<close>: \<open>st0\<close> itself, and the state a completed iteration leaves.
\<close>

inductive loop_head :: "Env \<Rightarrow> Collab \<Rightarrow> bool \<Rightarrow> pstate \<Rightarrow> pstate \<Rightarrow> bool"
  for E P DoCheck st0 where
  first: "loop_head E P DoCheck st0 st0"
| later: "loop_head E P DoCheck st0 st \<Longrightarrow> next_section st = (st1, True) \<Longrightarrow>
          section_body E P DoCheck st1 = Some st3 \<Longrightarrow> loop_head E P DoCheck st0 st3"

code_pred loop_head .

text \<open>
  The section that the iteration entered in \<open>st\<close> parses successfully: its name, and the
  ruleset built for it, which line 341 hands to \<^verbatim>\<open>add\<close>. There is none when the loop
  ends in \<open>st\<close>, when the name is registered already (line 329), when the template is
  not registered (line 331), or when the ruleset is too large for the board (line 339).
\<close>

definition parsed_section ::
  "Env \<Rightarrow> Collab \<Rightarrow> bool \<Rightarrow> pstate \<Rightarrow> (string \<times> Variant) option" where
  "parsed_section E P DoCheck st =
     (case next_section st of (st1, entered) \<Rightarrow>
        if \<not> entered then None
        else (case attribs_loop DoCheck (parse_header st1, Map.empty) of (st2, attribs) \<Rightarrow>
          if variants st2 (variant st2) \<noteq> None then None
          else if variant_template st2 \<noteq> [] \<and> variants st2 (variant_template st2) = None
          then None
          else (let v = fst (build_variant P DoCheck attribs st2)
                in if maxFile v \<le> FILE_MAX E \<and> maxRank v \<le> RANK_MAX E
                   then Some (variant st2, v) else None)))"

subsection \<open>A small ruleset and build constants, to instantiate the theorems\<close>

text \<open>
  Sample values for the parameters, not read from the missing headers: a build of 8
  files, 8 ranks and 64 squares, squares numbered rank by rank; piece types pawn 1,
  knight 2, bishop 3, rook 4, queen 5, king 6, commoner 7; a piece is its type plus 8
  when black.
\<close>

definition sample_env :: Env where
  "sample_env =
     \<lparr> FILE_MAX = 7, RANK_MAX = 7, SQUARE_NB = 64,
       KING = 6, COMMONER = 7,
       CHESS_PIECES = 0x7E, COMMON_FAIRY_PIECES = 0x80,
       SHOGI_PIECES = 0x5A, COMMON_STEP_PIECES = 0xC2,
       VALUE_MATE = 32000, VALUE_DRAW = 0, VALUE_NONE = 32002,
       make_piece = (\<lambda>c pt. (case c of WHITE \<Rightarrow> 0 | BLACK \<Rightarrow> 8) + pt),
       make_bitboard = (\<lambda>s. 2 ^ nat s),
       relative_square = (\<lambda>c s maxRank.
          (case c of WHITE \<Rightarrow> s | BLACK \<Rightarrow> (maxRank - s div 8) * 8 + s mod 8)) \<rparr>"

text \<open>A 3 by 3 board with a king and a pawn a side.\<close>

definition sample_variant :: Variant where
  "sample_variant =
     \<lparr> maxRank = 2, maxFile = 2, pieceTypes = 0x42,
       pieceToChar = '' PNBRQK  pnbrqk'',
       pieceToCharSynonyms = ''               '',
       startFen = ''1pk/3/KP1 w - - 0 1'',
       doubleStep = True, doubleStepRegion = (\<lambda>c. 0),
       mobilityRegion = (\<lambda>c pt. 0),
       kingType = 6, cambodianMoves = False, diagonalLines = False,
       extinctionPieceCount = 0, extinctionPieceTypes = 0,
       promotionPawnTypes = (\<lambda>c. 2), promotionPieceTypes = (\<lambda>c. 0x3C),
       promotedPieceType = [0, 0, 0, 0, 0, 0, 0, 0],
       pieceDrops = False, capturesToHand = False, mustDrop = False,
       seirawanGating = False, twoBoards = False,
       extinctionValue = 32002, checkmateValue = - 32000, stalemateValue = 0,
       materialCounting = 0, flagRegion = (\<lambda>c. 0),
       mustCapture = False, checkCounting = False, makpongRule = False,
       connectN = 0, blastOnCapture = False, petrifyOnCaptureTypes = 0,
       connectHorizontal = True, connectVertical = True, connectDiagonal = True,
       fastAttacks = False, fastAttacks2 = False, nnueKing = 0, nnueUsePockets = False,
       pieceSquareIndex = (\<lambda>x. 0), pieceHandIndex = (\<lambda>x. 0),
       kingSquareIndex = (\<lambda>s. 0), nnueDimensions = 0, nnueMaxPieces = 0,
       endgameEval = False, shogiStylePromotions = False, connect_directions = [] \<rparr>"

text \<open>The same board with each king held to its own first rank, and a table that holds
  \<open>- 1\<close> everywhere before \<^verbatim>\<open>conclude\<close>.\<close>

definition palace_variant :: Variant where
  "palace_variant =
     sample_variant\<lparr>mobilityRegion :=
                      (\<lambda>c pt. if pt = 6 then (case c of WHITE \<Rightarrow> 0x7 | BLACK \<Rightarrow> 0x70000)
                               else 0),
                    kingSquareIndex := (\<lambda>s. - 1)\<rparr>"

text \<open>A collaborator for the examples: it knows the keys \<^verbatim>\<open>maxFile\<close> (a decimal
  number of files) and \<^verbatim>\<open>mustDrop\<close>, starts from the sample ruleset when no template is
  given, and in the checking mode reports every other key.\<close>

definition decimal :: "string \<Rightarrow> int" where
  "decimal s = foldl (\<lambda>n c. 10 * n + (int (of_char c) - 48)) 0 s"

definition sample_apply :: "Config \<Rightarrow> Variant \<Rightarrow> Variant" where
  "sample_apply attribs v =
     (let v1 = (case attribs ''maxFile'' of
                  Some x \<Rightarrow> v\<lparr>maxFile := decimal x - 1\<rparr>
                | None \<Rightarrow> v)
      in case attribs ''mustDrop'' of
           Some x \<Rightarrow> v1\<lparr>mustDrop := (x = ''true'')\<rparr>
         | None \<Rightarrow> v1)"

definition sample_collab :: Collab where
  "sample_collab =
     \<lparr> parse_default = (\<lambda>DoCheck attribs. (sample_apply attribs sample_variant, [])),
       parse_template = (\<lambda>DoCheck attribs v. (sample_apply attribs v, [])),
       variant_init = (\<lambda>v. v) \<rparr>"

text \<open>The state in which the body of the section \<open>name\<close> (with no template) is entered,
  at the end of the stream, with the registry \<open>reg\<close>.\<close>

definition section_state :: "string \<Rightarrow> Registry \<Rightarrow> pstate" where
  "section_state name reg =
     \<lparr>file_stream = stringstream [], variant = name, variant_template = [], key = [],
      value_str = [], input = [], variants = reg, varsToErase = [], cerr = []\<rparr>"

text \<open>A stream of two sections, the second built on the first.\<close>

definition two_sections :: string where
  "two_sections = ''[A]'' @ [CHR 0x0A] @ ''maxFile = 3'' @ [CHR 0x0A]
                  @ ''[B:A]'' @ [CHR 0x0A] @ ''mustDrop = true'' @ [CHR 0x0A]"

section \<open>Properties\<close>

subsection \<open>Machine integers\<close>

lemma int32_mod: "int32 a mod 4294967296 = a mod 4294967296"
proof -
  have "int32 a mod 4294967296 = ((a + 2147483648) mod 4294967296 - 2147483648) mod 4294967296"
    by (simp add: int32_def)
  also have "\<dots> = (a + 2147483648 - 2147483648) mod 4294967296"
    by (rule mod_diff_left_eq)
  finally show ?thesis
    by simp
qed

lemma int32_cong: "a mod 4294967296 = b mod 4294967296 \<Longrightarrow> int32 a = int32 b"
proof -
  assume "a mod 4294967296 = b mod 4294967296"
  then have "(a + 2147483648) mod 4294967296 = (b + 2147483648) mod 4294967296"
    by (rule mod_add_cong) simp
  then show ?thesis
    by (simp add: int32_def)
qed

lemma int32_id: "- 2147483648 \<le> x \<Longrightarrow> x < 2147483648 \<Longrightarrow> int32 x = x"
  by (simp add: int32_def)

lemma int32_range: "- 2147483648 \<le> int32 x" "int32 x < 2147483648"
  by (simp_all add: int32_def)

lemma size_t_mod: "size_t a mod 4294967296 = a mod 4294967296"
proof -
  have "(4294967296 :: int) dvd 18446744073709551616"
    by simp
  then show ?thesis
    unfolding size_t_def by (rule mod_mod_cancel)
qed

text \<open>Reducing the operands of a sum, a difference or a product changes nothing once
  the result is reduced.\<close>

lemma int32_arith:
  "int32 (int32 a) = int32 a"
  "int32 (int32 a + b) = int32 (a + b)"
  "int32 (a + int32 b) = int32 (a + b)"
  "int32 (int32 a - b) = int32 (a - b)"
  "int32 (a - int32 b) = int32 (a - b)"
  "int32 (int32 a * b) = int32 (a * b)"
  "int32 (a * int32 b) = int32 (a * b)"
  by (rule int32_cong,
      (simp add: int32_mod
       | intro mod_add_cong mod_diff_cong mod_mult_cong int32_mod refl))+

lemma int32_size_t:
  "int32 (size_t a) = int32 a"
  "int32 (size_t a + b) = int32 (a + b)"
  "int32 (a + size_t b) = int32 (a + b)"
  "int32 (size_t a - b) = int32 (a - b)"
  "int32 (a - size_t b) = int32 (a - b)"
  "int32 (size_t a * b) = int32 (a * b)"
  "int32 (a * size_t b) = int32 (a * b)"
  by (rule int32_cong,
      (simp add: size_t_mod
       | intro mod_add_cong mod_diff_cong mod_mult_cong size_t_mod refl))+

subsection \<open>The loops of \<^verbatim>\<open>conclude\<close>, one iteration at a time\<close>

lemma restrictedMobility_loop_stop:
  "rm \<or> ps = 0 \<Longrightarrow> restrictedMobility_loop v ps rm = rm"
  by (subst restrictedMobility_loop.simps) auto

lemma restrictedMobility_loop_step:
  "\<not> rm \<Longrightarrow> ps \<noteq> 0 \<Longrightarrow>
     restrictedMobility_loop v ps rm =
       restrictedMobility_loop v (unset_bit (lsb ps) ps)
         (mobilityRegion v WHITE (lsb ps) \<noteq> 0 \<or> mobilityRegion v BLACK (lsb ps) \<noteq> 0)"
  by (subst restrictedMobility_loop.simps) (simp add: pop_lsb_def)

lemma pieceIndex_loop_stop: "pieceIndex_loop E v 0 i tabs = tabs"
  by (subst pieceIndex_loop.simps) simp

lemma pieceIndex_loop_step:
  "ps \<noteq> 0 \<Longrightarrow>
     pieceIndex_loop E v ps i tabs =
       (let pt = lsb (if ps \<noteq> piece_set (nnueKing v)
                      then ps AND NOT (piece_set (nnueKing v)) else ps)
        in pieceIndex_loop E v (set_xor_type ps pt) (i + 1)
             (index_writes E v pt i BLACK (index_writes E v pt i WHITE tabs)))"
  by (subst pieceIndex_loop.simps) (simp add: Let_def)

lemma kingSquare_loop_stop:
  "\<not> s < nnueSquares v \<Longrightarrow> kingSquare_loop E v s st = Some st"
  by (subst kingSquare_loop.simps) (simp split: prod.splits)

lemma kingSquare_loop_skip:
  "s < nnueSquares v \<Longrightarrow> \<not> king_square_available E v s \<Longrightarrow>
     kingSquare_loop E v s st = kingSquare_loop E v (s + 1) st"
  by (subst kingSquare_loop.simps) (simp split: prod.splits)

lemma kingSquare_loop_write:
  "s < nnueSquares v \<Longrightarrow> king_square_available E v s \<Longrightarrow>
     kingSquare_loop E v s (tab, k) =
       (case write_kingSquareIndex E tab s (int32 (k * nnuePieceIndices v)) of
          None \<Rightarrow> None
        | Some tab' \<Rightarrow> kingSquare_loop E v (s + 1) (tab', k + 1))"
  by (subst kingSquare_loop.simps) simp

lemma restrictedMobility_loop_cong:
  "mobilityRegion v = mobilityRegion w \<Longrightarrow>
     restrictedMobility_loop v ps rm = restrictedMobility_loop w ps rm"
proof (induction v ps rm rule: restrictedMobility_loop.induct)
  case (1 v ps rm)
  show ?case
  proof (cases "\<not> rm \<and> ps \<noteq> 0")
    case True
    with 1 show ?thesis
      by (auto simp: restrictedMobility_loop_step pop_lsb_def split: if_splits)
  next
    case False
    then show ?thesis
      by (auto simp: restrictedMobility_loop_stop)
  qed
qed

lemma pieceIndex_loop_cong:
  "nnueKing v = nnueKing w \<Longrightarrow> index_writes E v = index_writes E w \<Longrightarrow>
     pieceIndex_loop E v ps i tabs = pieceIndex_loop E w ps i tabs"
proof (induction E v ps i tabs rule: pieceIndex_loop.induct)
  case (1 E v ps i tabs)
  show ?case
  proof (cases "ps \<noteq> 0")
    case True
    with 1 show ?thesis
      by (simp add: pieceIndex_loop_step Let_def)
  next
    case False
    then show ?thesis
      by (simp add: pieceIndex_loop_stop)
  qed
qed

lemma kingSquare_loop_cong:
  "nnueSquares v = nnueSquares w \<Longrightarrow> nnuePieceIndices v = nnuePieceIndices w \<Longrightarrow>
   king_square_available E v = king_square_available E w \<Longrightarrow>
     kingSquare_loop E v s st = kingSquare_loop E w s st"
proof (induction E v s st rule: kingSquare_loop.induct)
  case (1 E v s st)
  obtain tab k where st: "st = (tab, k)"
    by (cases st)
  show ?case
  proof (cases "s < nnueSquares v")
    case True
    show ?thesis
    proof (cases "king_square_available E v s")
      case True
      with \<open>s < nnueSquares v\<close> 1 st show ?thesis
        by (simp add: kingSquare_loop_write split: option.splits)
    next
      case False
      with \<open>s < nnueSquares v\<close> 1 st show ?thesis
        by (simp add: kingSquare_loop_skip)
    qed
  next
    case False
    with 1(3) show ?thesis
      by (simp add: kingSquare_loop_stop)
  qed
qed

lemma count_pieces_cong:
  "pieceToChar v = pieceToChar w \<Longrightarrow> pieceToCharSynonyms v = pieceToCharSynonyms w \<Longrightarrow>
     count_pieces v s n = count_pieces w s n"
  by (induction s arbitrary: n) simp_all

lemma kingSquare_table_cong:
  "nnueKing v = nnueKing w \<Longrightarrow> nnueSquares v = nnueSquares w \<Longrightarrow>
   nnuePieceIndices v = nnuePieceIndices w \<Longrightarrow>
   king_square_available E v = king_square_available E w \<Longrightarrow>
   kingSquareIndex v = kingSquareIndex w \<Longrightarrow>
     kingSquare_table E v = kingSquare_table E w"
  by (simp add: kingSquare_table_def kingSquare_loop_cong [of v w])

lemmas setters = set_fastAttacks_def set_nnueKing_def set_nnueUsePockets_def
  set_pieceIndices_def set_kingSquares_def set_nnueMaxPieces_def set_endgameEval_def
  set_shogiStylePromotions_def set_connect_directions_def

lemma enforce_doubleStep_shape:
  "enforce_doubleStep v =
     v\<lparr>doubleStep := doubleStep (enforce_doubleStep v),
       doubleStepRegion := doubleStepRegion (enforce_doubleStep v)\<rparr>"
  by (simp add: enforce_doubleStep_def Let_def)

subsection \<open>What each step of \<^verbatim>\<open>conclude\<close> depends on\<close>

text \<open>Two rulesets agree on the fields \<^verbatim>\<open>conclude\<close> reads and never writes.\<close>

definition same_raw :: "Variant \<Rightarrow> Variant \<Rightarrow> bool" where
  "same_raw v w \<longleftrightarrow>
     (maxRank v = maxRank w \<and>
      maxFile v = maxFile w \<and>
      pieceTypes v = pieceTypes w \<and>
      pieceToChar v = pieceToChar w \<and>
      pieceToCharSynonyms v = pieceToCharSynonyms w \<and>
      startFen v = startFen w \<and>
      mobilityRegion v = mobilityRegion w \<and>
      kingType v = kingType w \<and>
      cambodianMoves v = cambodianMoves w \<and>
      diagonalLines v = diagonalLines w \<and>
      extinctionPieceCount v = extinctionPieceCount w \<and>
      extinctionPieceTypes v = extinctionPieceTypes w \<and>
      promotionPawnTypes v = promotionPawnTypes w \<and>
      promotionPieceTypes v = promotionPieceTypes w \<and>
      promotedPieceType v = promotedPieceType w \<and>
      pieceDrops v = pieceDrops w \<and>
      capturesToHand v = capturesToHand w \<and>
      mustDrop v = mustDrop w \<and>
      seirawanGating v = seirawanGating w \<and>
      twoBoards v = twoBoards w \<and>
      extinctionValue v = extinctionValue w \<and>
      checkmateValue v = checkmateValue w \<and>
      stalemateValue v = stalemateValue w \<and>
      materialCounting v = materialCounting w \<and>
      flagRegion v = flagRegion w \<and>
      mustCapture v = mustCapture w \<and>
      checkCounting v = checkCounting w \<and>
      makpongRule v = makpongRule w \<and>
      connectN v = connectN w \<and>
      blastOnCapture v = blastOnCapture w \<and>
      petrifyOnCaptureTypes v = petrifyOnCaptureTypes w \<and>
      connectHorizontal v = connectHorizontal w \<and>
      connectVertical v = connectVertical w \<and>
      connectDiagonal v = connectDiagonal w)"

lemma same_raw_refl [simp]: "same_raw v v"
  by (simp add: same_raw_def)

lemma same_raw_update [simp]:
  "same_raw (v\<lparr>doubleStep := x1\<rparr>) w = same_raw v w"
  "same_raw (v\<lparr>doubleStepRegion := x2\<rparr>) w = same_raw v w"
  "same_raw (v\<lparr>fastAttacks := x3\<rparr>) w = same_raw v w"
  "same_raw (v\<lparr>fastAttacks2 := x4\<rparr>) w = same_raw v w"
  "same_raw (v\<lparr>nnueKing := x5\<rparr>) w = same_raw v w"
  "same_raw (v\<lparr>nnueUsePockets := x6\<rparr>) w = same_raw v w"
  "same_raw (v\<lparr>pieceSquareIndex := x7\<rparr>) w = same_raw v w"
  "same_raw (v\<lparr>pieceHandIndex := x8\<rparr>) w = same_raw v w"
  "same_raw (v\<lparr>kingSquareIndex := x9\<rparr>) w = same_raw v w"
  "same_raw (v\<lparr>nnueDimensions := x10\<rparr>) w = same_raw v w"
  "same_raw (v\<lparr>nnueMaxPieces := x11\<rparr>) w = same_raw v w"
  "same_raw (v\<lparr>endgameEval := x12\<rparr>) w = same_raw v w"
  "same_raw (v\<lparr>shogiStylePromotions := x13\<rparr>) w = same_raw v w"
  "same_raw (v\<lparr>connect_directions := x14\<rparr>) w = same_raw v w"
  by (simp_all add: same_raw_def)

lemma same_raw_update_right [simp]:
  "same_raw v (w\<lparr>doubleStep := x1\<rparr>) = same_raw v w"
  "same_raw v (w\<lparr>doubleStepRegion := x2\<rparr>) = same_raw v w"
  "same_raw v (w\<lparr>fastAttacks := x3\<rparr>) = same_raw v w"
  "same_raw v (w\<lparr>fastAttacks2 := x4\<rparr>) = same_raw v w"
  "same_raw v (w\<lparr>nnueKing := x5\<rparr>) = same_raw v w"
  "same_raw v (w\<lparr>nnueUsePockets := x6\<rparr>) = same_raw v w"
  "same_raw v (w\<lparr>pieceSquareIndex := x7\<rparr>) = same_raw v w"
  "same_raw v (w\<lparr>pieceHandIndex := x8\<rparr>) = same_raw v w"
  "same_raw v (w\<lparr>kingSquareIndex := x9\<rparr>) = same_raw v w"
  "same_raw v (w\<lparr>nnueDimensions := x10\<rparr>) = same_raw v w"
  "same_raw v (w\<lparr>nnueMaxPieces := x11\<rparr>) = same_raw v w"
  "same_raw v (w\<lparr>endgameEval := x12\<rparr>) = same_raw v w"
  "same_raw v (w\<lparr>shogiStylePromotions := x13\<rparr>) = same_raw v w"
  "same_raw v (w\<lparr>connect_directions := x14\<rparr>) = same_raw v w"
  by (simp_all add: same_raw_def)

lemma same_raw_sym: "same_raw v w \<Longrightarrow> same_raw w v"
  by (simp add: same_raw_def)

lemma restrictedMobility_loop_raw:
  "same_raw v w \<Longrightarrow> restrictedMobility_loop v ps rm = restrictedMobility_loop w ps rm"
  by (rule restrictedMobility_loop_cong) (simp add: same_raw_def)

lemma set_fastAttacks_raw:
  "same_raw v w \<Longrightarrow> fastAttacks (set_fastAttacks E rm v) = fastAttacks (set_fastAttacks E rm w)"
  "same_raw v w \<Longrightarrow> fastAttacks2 (set_fastAttacks E rm v) = fastAttacks2 (set_fastAttacks E rm w)"
  by (simp_all add: same_raw_def set_fastAttacks_def)

lemma nnueKing_candidate_raw:
  "same_raw v w \<Longrightarrow> nnueKing_candidate E v = nnueKing_candidate E w"
  by (simp add: same_raw_def nnueKing_candidate_def)

lemma nnueKing_promotion_raw:
  "same_raw v w \<Longrightarrow> nnueKing v = nnueKing w \<Longrightarrow> nnueKing_promotion v = nnueKing_promotion w"
  by (simp add: same_raw_def nnueKing_promotion_def)

lemma nnueKing_unique_raw:
  "same_raw v w \<Longrightarrow> nnueKing v = nnueKing w \<Longrightarrow> nnueKing_unique E v = nnueKing_unique E w"
  by (simp add: same_raw_def nnueKing_unique_def Let_def)

lemma set_nnueKing_raw:
  assumes "same_raw v w"
  shows "nnueKing (set_nnueKing E v) = nnueKing (set_nnueKing E w)"
proof -
  have 1: "nnueKing_candidate E v = nnueKing_candidate E w"
    using assms by (rule nnueKing_candidate_raw)
  have 2: "nnueKing_promotion (v\<lparr>nnueKing := nnueKing_candidate E v\<rparr>)
             = nnueKing_promotion (w\<lparr>nnueKing := nnueKing_candidate E w\<rparr>)"
    by (rule nnueKing_promotion_raw) (simp_all add: assms 1)
  have 3: "nnueKing_unique E (v\<lparr>nnueKing := nnueKing_promotion (v\<lparr>nnueKing := nnueKing_candidate E v\<rparr>)\<rparr>)
             = nnueKing_unique E (w\<lparr>nnueKing := nnueKing_promotion (w\<lparr>nnueKing := nnueKing_candidate E w\<rparr>)\<rparr>)"
    by (rule nnueKing_unique_raw) (simp_all add: assms 2)
  show ?thesis
    by (simp add: set_nnueKing_def Let_def 3)
qed

lemma set_nnueKing_shape: "set_nnueKing E v = v\<lparr>nnueKing := nnueKing (set_nnueKing E v)\<rparr>"
  by (simp add: set_nnueKing_def Let_def)

lemma nnueUsePockets_value_raw:
  "same_raw v w \<Longrightarrow> nnueUsePockets_value v = nnueUsePockets_value w"
  by (simp add: same_raw_def nnueUsePockets_value_def)

lemmas sizes_defs = nnuePieceIndices_def nnueNonDropPieceIndices_def has_nnueKing_def
  nnuePockets_def nnueSquares_def

lemma nnuePieceIndices_raw:
  "same_raw v w \<Longrightarrow> nnueKing v = nnueKing w \<Longrightarrow> nnueUsePockets v = nnueUsePockets w \<Longrightarrow>
     nnuePieceIndices v = nnuePieceIndices w"
  by (simp add: same_raw_def sizes_defs)

lemma pieceIndex_loop_raw:
  "same_raw v w \<Longrightarrow> nnueKing v = nnueKing w \<Longrightarrow> nnueUsePockets v = nnueUsePockets w \<Longrightarrow>
     pieceIndex_loop E v ps i tabs = pieceIndex_loop E w ps i tabs"
  by (rule pieceIndex_loop_cong)
     (simp_all add: same_raw_def index_writes_def sizes_defs fun_eq_iff)

lemma kingSquare_table_raw:
  "same_raw v w \<Longrightarrow> nnueKing v = nnueKing w \<Longrightarrow> nnueUsePockets v = nnueUsePockets w \<Longrightarrow>
   kingSquareIndex v = kingSquareIndex w \<Longrightarrow>
     kingSquare_table E v = kingSquare_table E w"
  by (rule kingSquare_table_cong)
     (simp_all add: same_raw_def king_square_available_def bitboardSquare_def sizes_defs
        fun_eq_iff)

lemma nnueMaxPieces_value_raw:
  "same_raw v w \<Longrightarrow> nnueMaxPieces_value v = nnueMaxPieces_value w"
  by (simp add: same_raw_def nnueMaxPieces_value_def count_pieces_cong [of v w])

lemma set_endgameEval_raw:
  "same_raw v w \<Longrightarrow> endgameEval (set_endgameEval E rm v) = endgameEval (set_endgameEval E rm w)"
  by (simp add: same_raw_def set_endgameEval_def)

lemma set_shogiStylePromotions_raw:
  "same_raw v w \<Longrightarrow> shogiStylePromotions (set_shogiStylePromotions v)
     = shogiStylePromotions (set_shogiStylePromotions w)"
  by (simp add: same_raw_def set_shogiStylePromotions_def)

lemma connect_directions_value_raw:
  "same_raw v w \<Longrightarrow> connect_directions_value v = connect_directions_value w"
  by (simp add: same_raw_def connect_directions_value_def)

subsection \<open>\<^verbatim>\<open>conclude\<close> in one equation\<close>

text \<open>Every written field, as a function of the ruleset \<^verbatim>\<open>conclude\<close> was given.\<close>

lemma conclude_normal_form:
  "conclude E v =
     (case kingSquare_table E
             (v\<lparr>nnueKing := nnueKing (set_nnueKing E v),
                nnueUsePockets := nnueUsePockets_value v\<rparr>) of
        None \<Rightarrow> None
      | Some st \<Rightarrow>
          Some (v\<lparr>doubleStep := doubleStep (enforce_doubleStep v),
                  doubleStepRegion := doubleStepRegion (enforce_doubleStep v),
                  fastAttacks := fastAttacks
                    (set_fastAttacks E (restrictedMobility_loop v (pieceTypes v) False) v),
                  fastAttacks2 := fastAttacks2
                    (set_fastAttacks E (restrictedMobility_loop v (pieceTypes v) False) v),
                  nnueKing := nnueKing (set_nnueKing E v),
                  nnueUsePockets := nnueUsePockets_value v,
                  pieceSquareIndex := fst (pieceIndex_loop E
                     (v\<lparr>nnueKing := nnueKing (set_nnueKing E v),
                        nnueUsePockets := nnueUsePockets_value v\<rparr>)
                     (pieceTypes v) 0 (pieceSquareIndex v, pieceHandIndex v)),
                  pieceHandIndex := snd (pieceIndex_loop E
                     (v\<lparr>nnueKing := nnueKing (set_nnueKing E v),
                        nnueUsePockets := nnueUsePockets_value v\<rparr>)
                     (pieceTypes v) 0 (pieceSquareIndex v, pieceHandIndex v)),
                  kingSquareIndex := fst st,
                  nnueDimensions := int32 (snd st * nnuePieceIndices
                     (v\<lparr>nnueKing := nnueKing (set_nnueKing E v),
                        nnueUsePockets := nnueUsePockets_value v\<rparr>)),
                  nnueMaxPieces := nnueMaxPieces_value v,
                  endgameEval := endgameEval
                    (set_endgameEval E (restrictedMobility_loop v (pieceTypes v) False) v),
                  shogiStylePromotions := shogiStylePromotions (set_shogiStylePromotions v),
                  connect_directions := connect_directions_value v\<rparr>))"
proof -
  define d where "d = doubleStep (enforce_doubleStep v)"
  define r where "r = doubleStepRegion (enforce_doubleStep v)"
  define rm where "rm = restrictedMobility_loop v (pieceTypes v) False"
  define a where "a = fastAttacks (set_fastAttacks E rm v)"
  define b where "b = fastAttacks2 (set_fastAttacks E rm v)"
  define k where "k = nnueKing (set_nnueKing E v)"
  define u where "u = nnueUsePockets_value v"
  define w where "w = v\<lparr>nnueKing := k, nnueUsePockets := u\<rparr>"
  define tabs where
    "tabs = pieceIndex_loop E w (pieceTypes v) 0 (pieceSquareIndex v, pieceHandIndex v)"
  define m where "m = nnueMaxPieces_value v"
  define e where "e = endgameEval (set_endgameEval E rm v)"
  define s where "s = shogiStylePromotions (set_shogiStylePromotions v)"
  define c where "c = connect_directions_value v"
  define v1 where "v1 = v\<lparr>doubleStep := d, doubleStepRegion := r\<rparr>"
  define v2 where "v2 = v1\<lparr>fastAttacks := a, fastAttacks2 := b\<rparr>"
  define v3 where "v3 = v2\<lparr>nnueKing := k\<rparr>"
  define v4 where "v4 = v3\<lparr>nnueUsePockets := u\<rparr>"
  define v5 where "v5 = v4\<lparr>pieceSquareIndex := fst tabs, pieceHandIndex := snd tabs\<rparr>"
  have raw1: "same_raw v1 v" by (simp add: v1_def)
  have raw2: "same_raw v2 v" by (simp add: v2_def raw1)
  have raw3: "same_raw v3 v" by (simp add: v3_def raw2)
  have raw4: "same_raw v4 v" "same_raw v4 w" by (simp_all add: v4_def w_def raw3)
  have raw5: "same_raw v5 v" "same_raw v5 w" by (simp_all add: v5_def raw4)
  have e1: "enforce_doubleStep v = v1"
    by (simp add: v1_def d_def r_def enforce_doubleStep_def Let_def)
  have "pieceTypes v1 = pieceTypes v"
    by (simp add: v1_def)
  then have e_rm: "restrictedMobility_loop v1 (pieceTypes v1) False = rm"
    by (simp add: rm_def restrictedMobility_loop_raw [OF raw1])
  have e2: "set_fastAttacks E rm v1 = v2"
    using set_fastAttacks_raw [OF raw1, of E rm]
    by (simp add: v2_def a_def b_def set_fastAttacks_def)
  have e3: "set_nnueKing E v2 = v3"
    by (subst set_nnueKing_shape) (simp add: v3_def k_def set_nnueKing_raw [OF raw2])
  have e4: "set_nnueUsePockets v3 = v4"
    by (simp add: set_nnueUsePockets_def v4_def u_def nnueUsePockets_value_raw [OF raw3])
  have nk4: "nnueKing v4 = nnueKing w" "nnueUsePockets v4 = nnueUsePockets w"
    by (simp_all add: v4_def v3_def w_def)
  have f4: "pieceTypes v4 = pieceTypes v" "pieceSquareIndex v4 = pieceSquareIndex v"
    "pieceHandIndex v4 = pieceHandIndex v"
    by (simp_all add: v4_def v3_def v2_def v1_def)
  have e5: "set_pieceIndices E v4 = v5"
    by (simp add: set_pieceIndices_def Let_def v5_def tabs_def f4
          pieceIndex_loop_raw [OF raw4(2) nk4])
  have nk5: "nnueKing v5 = nnueKing w" "nnueUsePockets v5 = nnueUsePockets w"
    "kingSquareIndex v5 = kingSquareIndex w"
    by (simp_all add: v5_def v4_def v3_def v2_def v1_def w_def)
  have t5: "kingSquare_table E v5 = kingSquare_table E w"
    by (rule kingSquare_table_raw [OF raw5(2) nk5])
  have p5: "nnuePieceIndices v5 = nnuePieceIndices w"
    by (rule nnuePieceIndices_raw [OF raw5(2) nk5(1,2)])
  define v6 where "v6 = (\<lambda>st. v5\<lparr>kingSquareIndex := fst st,
      nnueDimensions := int32 (snd st * nnuePieceIndices w)\<rparr>)"
  have e6: "set_kingSquares v5 st = v6 st" for st
    by (simp add: set_kingSquares_def v6_def p5 split: prod.splits)
  have raw6: "same_raw (v6 st) v" for st
    by (simp add: v6_def raw5)
  have e7: "set_nnueMaxPieces (v6 st) = (v6 st)\<lparr>nnueMaxPieces := m\<rparr>" for st
    by (simp add: set_nnueMaxPieces_def m_def nnueMaxPieces_value_raw [OF raw6])
  have e8: "set_endgameEval E rm ((v6 st)\<lparr>nnueMaxPieces := m\<rparr>)
      = (v6 st)\<lparr>nnueMaxPieces := m, endgameEval := e\<rparr>" for st
    using set_endgameEval_raw [of "(v6 st)\<lparr>nnueMaxPieces := m\<rparr>" v E rm]
    by (simp add: set_endgameEval_def e_def raw6)
  have e9: "set_shogiStylePromotions ((v6 st)\<lparr>nnueMaxPieces := m, endgameEval := e\<rparr>)
      = (v6 st)\<lparr>nnueMaxPieces := m, endgameEval := e, shogiStylePromotions := s\<rparr>" for st
    using set_shogiStylePromotions_raw
      [of "(v6 st)\<lparr>nnueMaxPieces := m, endgameEval := e\<rparr>" v]
    by (simp add: set_shogiStylePromotions_def s_def raw6)
  have e10: "set_connect_directions
        ((v6 st)\<lparr>nnueMaxPieces := m, endgameEval := e, shogiStylePromotions := s\<rparr>)
      = (v6 st)\<lparr>nnueMaxPieces := m, endgameEval := e, shogiStylePromotions := s,
            connect_directions := c\<rparr>" for st
    using connect_directions_value_raw
      [of "(v6 st)\<lparr>nnueMaxPieces := m, endgameEval := e, shogiStylePromotions := s\<rparr>" v]
    by (simp add: set_connect_directions_def c_def raw6)
  have "conclude E v =
      (case kingSquare_table E w of None \<Rightarrow> None
       | Some st \<Rightarrow> Some ((v6 st)\<lparr>nnueMaxPieces := m, endgameEval := e,
            shogiStylePromotions := s, connect_directions := c\<rparr>))"
    unfolding conclude_def Let_def e1 e_rm e2 e3 e4 e5 t5 e6 e7 e8 e9 e10 ..
  then show ?thesis
    unfolding v6_def v5_def v4_def v3_def v2_def v1_def
    unfolding w_def tabs_def a_def b_def c_def d_def e_def k_def m_def r_def s_def u_def rm_def
    by (simp add: w_def)
qed

subsection \<open>The king-square index table\<close>

lemma king_squares_from_stop:
  "\<not> s < nnueSquares v \<Longrightarrow> king_squares_from E v s = []"
  by (simp add: king_squares_from_def)

lemma king_squares_from_step:
  "s < nnueSquares v \<Longrightarrow>
     king_squares_from E v s =
       (if king_square_available E v s then [s] else []) @ king_squares_from E v (s + 1)"
  by (simp add: king_squares_from_def upto_rec1 [of s])

lemma king_squares_from_ge: "q \<in> set (king_squares_from E v s) \<Longrightarrow> s \<le> q"
  by (simp add: king_squares_from_def)

lemma king_rank_self: "king_rank E v s s = 0"
  by (simp add: king_rank_def)

lemma king_rank_step:
  "s < q \<Longrightarrow> king_rank E v s q =
     (if king_square_available E v s then 1 else 0) + king_rank E v (s + 1) q"
  by (simp add: king_rank_def upto_rec1 [of s])

lemma kingSquare_loop_result:
  assumes "0 \<le> s" and "nnueSquares v \<le> SQUARE_NB E"
  shows "kingSquare_loop E v s (tab, k) =
           Some (\<lambda>q. if int q \<in> set (king_squares_from E v s)
                      then int32 ((k + king_rank E v s (int q)) * nnuePieceIndices v)
                      else tab q,
                 k + int (length (king_squares_from E v s)))"
  using assms(1)
proof (induction "nat (nnueSquares v - s)" arbitrary: s tab k)
  case 0
  then have "\<not> s < nnueSquares v"
    by simp
  then show ?case
    by (simp add: kingSquare_loop_stop king_squares_from_stop)
next
  case (Suc n)
  then have lt: "s < nnueSquares v"
    by linarith
  have n: "n = nat (nnueSquares v - (s + 1))"
    using Suc(2) by linarith
  have s1: "0 \<le> s + 1"
    using Suc(3) by simp
  show ?case
  proof (cases "king_square_available E v s")
    case False
    have "q \<in> set (king_squares_from E v (s + 1)) \<Longrightarrow>
            king_rank E v s q = king_rank E v (s + 1) q" for q
      using king_squares_from_ge [of q E v "s + 1"] False
      by (simp add: king_rank_step)
    with False lt show ?thesis
      by (simp add: kingSquare_loop_skip Suc(1) [OF n s1] king_squares_from_step
            cong: if_cong)
  next
    case True
    have w: "write_kingSquareIndex E tab s (int32 (k * nnuePieceIndices v))
               = Some (tab(nat s := int32 (k * nnuePieceIndices v)))"
      using lt assms(2) Suc(3) by (simp add: write_kingSquareIndex_def)
    have r: "q \<in> set (king_squares_from E v (s + 1)) \<Longrightarrow>
            king_rank E v s q = 1 + king_rank E v (s + 1) q" for q
      using king_squares_from_ge [of q E v "s + 1"] True
      by (simp add: king_rank_step)
    have notin: "s \<notin> set (king_squares_from E v (s + 1))"
      using king_squares_from_ge [of s E v "s + 1"] by auto
    have "(\<lambda>q. if int q \<in> set (king_squares_from E v (s + 1))
                then int32 ((k + 1 + king_rank E v (s + 1) (int q)) * nnuePieceIndices v)
                else (tab(nat s := int32 (k * nnuePieceIndices v))) q)
          = (\<lambda>q. if int q \<in> set (king_squares_from E v s)
                then int32 ((k + king_rank E v s (int q)) * nnuePieceIndices v)
                else tab q)"
    proof
      fix q
      show "(if int q \<in> set (king_squares_from E v (s + 1))
                then int32 ((k + 1 + king_rank E v (s + 1) (int q)) * nnuePieceIndices v)
                else (tab(nat s := int32 (k * nnuePieceIndices v))) q)
          = (if int q \<in> set (king_squares_from E v s)
                then int32 ((k + king_rank E v s (int q)) * nnuePieceIndices v)
                else tab q)"
      proof (cases "int q = s")
        case True
        then have "q = nat s"
          by auto
        with True notin \<open>king_square_available E v s\<close> lt show ?thesis
          by (simp add: king_squares_from_step [of s] king_rank_self)
      next
        case False
        then have "q \<noteq> nat s"
          using Suc(3) by auto
        with False \<open>king_square_available E v s\<close> lt show ?thesis
          by (simp add: king_squares_from_step [of s] r algebra_simps)
      qed
    qed
    with True lt w show ?thesis
      by (simp add: kingSquare_loop_write Suc(1) [OF n s1] king_squares_from_step [of s])
  qed
qed

lemma kingSquare_table_result:
  assumes "0 < SQUARE_NB E"
  shows "kingSquare_table E v =
           Some (if nnueKing v \<noteq> 0 \<and> nnueSquares v \<le> SQUARE_NB E
                 then (\<lambda>q. if int q \<in> set (king_squares E v)
                            then int32 (king_rank E v 0 (int q) * nnuePieceIndices v)
                            else kingSquareIndex v q,
                       int (length (king_squares E v)))
                 else ((kingSquareIndex v)(0 := 0), 1))"
  using assms
  by (simp add: kingSquare_table_def kingSquare_loop_result king_squares_def
        write_kingSquareIndex_def int32_def cong: if_cong)

lemma conclude_total: "0 < SQUARE_NB E \<Longrightarrow> \<exists>v'. conclude E v = Some v'"
  by (simp add: conclude_normal_form kingSquare_table_result)

lemma filter_upto_rank:
  "i < length (filter P [s..m]) \<Longrightarrow>
     length (filter P [s..filter P [s..m] ! i - 1]) = i"
proof (induction "nat (m + 1 - s)" arbitrary: s i)
  case 0
  then show ?case by simp
next
  case (Suc n)
  then have le: "s \<le> m" by linarith
  have n: "n = nat (m + 1 - (s + 1))"
    using Suc(2) by linarith
  have ge: "s + 1 \<le> x" if "x \<in> set (filter P [s + 1..m])" for x
    using that by simp
  show ?case
  proof (cases "P s")
    case False
    with Suc(3) le have i: "i < length (filter P [s + 1..m])"
      by (simp add: upto_rec1 [of s m])
    then have "s + 1 \<le> filter P [s + 1..m] ! i"
      by (intro ge nth_mem)
    with False le i Suc(1) [OF n i] show ?thesis
      by (simp add: upto_rec1 [of s])
  next
    case True
    show ?thesis
    proof (cases i)
      case 0
      with True le show ?thesis
        by (simp add: upto_rec1 [of s m])
    next
      case (Suc j)
      with Suc.prems True le have j: "j < length (filter P [s + 1..m])"
        by (simp add: upto_rec1 [of s m])
      then have "s + 1 \<le> filter P [s + 1..m] ! j"
        by (intro ge nth_mem)
      with True le j Suc Suc.hyps(1) [OF n j] show ?thesis
        by (simp add: upto_rec1 [of s])
    qed
  qed
qed

lemma king_rank_nth:
  "i < length (king_squares E v) \<Longrightarrow> king_rank E v 0 (king_squares E v ! i) = int i"
  by (simp add: king_rank_def king_squares_def king_squares_from_def filter_upto_rank)

lemma king_squares_nonneg: "q \<in> set (king_squares E v) \<Longrightarrow> 0 \<le> q"
  by (simp add: king_squares_def king_squares_from_def)

lemma king_squares_distinct: "distinct (king_squares E v)"
  by (simp add: king_squares_def king_squares_from_def)

subsection \<open>The fields of a concluded ruleset\<close>

lemma conclude_same_raw: "conclude E v = Some v' \<Longrightarrow> same_raw v' v"
  by (auto simp: conclude_normal_form split: option.splits)

lemma conclude_doubleStep:
  "conclude E v = Some v' \<Longrightarrow>
     doubleStep v' = doubleStep (enforce_doubleStep v)
     \<and> doubleStepRegion v' = doubleStepRegion (enforce_doubleStep v)"
  by (auto simp: conclude_normal_form split: option.splits)

lemma conclude_nnueKing:
  "conclude E v = Some v' \<Longrightarrow> nnueKing v' = nnueKing (set_nnueKing E v)"
  by (auto simp: conclude_normal_form split: option.splits)

lemma conclude_nnueUsePockets:
  "conclude E v = Some v' \<Longrightarrow> nnueUsePockets v' = nnueUsePockets_value v"
  by (auto simp: conclude_normal_form split: option.splits)

lemma conclude_nnueMaxPieces:
  "conclude E v = Some v' \<Longrightarrow> nnueMaxPieces v' = nnueMaxPieces_value v"
  by (auto simp: conclude_normal_form split: option.splits)

lemma conclude_endgameEval:
  "conclude E v = Some v' \<Longrightarrow>
     endgameEval v' =
       endgameEval (set_endgameEval E (restrictedMobility_loop v (pieceTypes v) False) v)"
  by (auto simp: conclude_normal_form split: option.splits)

lemma conclude_kingSquares:
  assumes "conclude E v = Some v'"
  shows "kingSquare_table E (v'\<lparr>kingSquareIndex := kingSquareIndex v\<rparr>)
           = Some (kingSquareIndex v', q) \<Longrightarrow>
             nnueDimensions v' = int32 (q * nnuePieceIndices v')"
    and "\<exists>q. kingSquare_table E (v'\<lparr>kingSquareIndex := kingSquareIndex v\<rparr>)
           = Some (kingSquareIndex v', q)"
proof -
  define w where "w = v\<lparr>nnueKing := nnueKing (set_nnueKing E v),
                nnueUsePockets := nnueUsePockets_value v\<rparr>"
  from assms obtain st where st: "kingSquare_table E w = Some st"
    and k: "kingSquareIndex v' = fst st"
    and n: "nnueDimensions v' = int32 (snd st * nnuePieceIndices w)"
    by (auto simp: conclude_normal_form w_def split: option.splits)
  have raw: "same_raw (v'\<lparr>kingSquareIndex := kingSquareIndex v\<rparr>) w"
    using conclude_same_raw [OF assms] by (simp add: w_def)
  have nk: "nnueKing (v'\<lparr>kingSquareIndex := kingSquareIndex v\<rparr>) = nnueKing w"
    "nnueUsePockets (v'\<lparr>kingSquareIndex := kingSquareIndex v\<rparr>) = nnueUsePockets w"
    "kingSquareIndex (v'\<lparr>kingSquareIndex := kingSquareIndex v\<rparr>) = kingSquareIndex w"
    using conclude_nnueKing [OF assms] conclude_nnueUsePockets [OF assms]
    by (simp_all add: w_def)
  have t: "kingSquare_table E (v'\<lparr>kingSquareIndex := kingSquareIndex v\<rparr>) = Some st"
    using kingSquare_table_raw [OF raw nk] st by simp
  have "same_raw v' w"
    using conclude_same_raw [OF assms] by (simp add: w_def)
  then have p: "nnuePieceIndices v' = nnuePieceIndices w"
    using conclude_nnueKing [OF assms] conclude_nnueUsePockets [OF assms]
    by (intro nnuePieceIndices_raw) (simp_all add: w_def)
  show "kingSquare_table E (v'\<lparr>kingSquareIndex := kingSquareIndex v\<rparr>)
           = Some (kingSquareIndex v', q) \<Longrightarrow>
             nnueDimensions v' = int32 (q * nnuePieceIndices v')"
    using t n p by auto
  show "\<exists>q. kingSquare_table E (v'\<lparr>kingSquareIndex := kingSquareIndex v\<rparr>)
           = Some (kingSquareIndex v', q)"
    using t k by (cases st) auto
qed

subsection \<open>C4: the double-step flag and its regions\<close>

text \<open>
  C4. After \<^verbatim>\<open>conclude\<close> the flag \<^verbatim>\<open>doubleStep\<close> is false if and only if both
  colours' double-step regions are empty; if the flag was off on entry both regions are
  cleared, and if both regions were empty on entry the flag is off afterwards.
\<close>

theorem C4_doubleStep_consistent:
  assumes "conclude E v = Some v'"
  shows "(doubleStep v' = False \<longleftrightarrow>
            doubleStepRegion v' WHITE = 0 \<and> doubleStepRegion v' BLACK = 0)
         \<and> (\<not> doubleStep v \<longrightarrow>
              doubleStepRegion v' WHITE = 0 \<and> doubleStepRegion v' BLACK = 0)
         \<and> (doubleStepRegion v WHITE = 0 \<and> doubleStepRegion v BLACK = 0 \<longrightarrow>
              \<not> doubleStep v')"
  using conclude_doubleStep [OF assms]
  by (auto simp: enforce_doubleStep_def Let_def split: if_splits)

theorem C4_witness:
  "\<exists>v'. conclude sample_env sample_variant = Some v'
        \<and> \<not> doubleStep v'
        \<and> doubleStepRegion v' WHITE = 0 \<and> doubleStepRegion v' BLACK = 0"
proof -
  obtain v' where c: "conclude sample_env sample_variant = Some v'"
    using conclude_total [of sample_env sample_variant] by (auto simp: sample_env_def)
  have "doubleStepRegion sample_variant WHITE = 0" "doubleStepRegion sample_variant BLACK = 0"
    by (simp_all add: sample_variant_def)
  with C4_doubleStep_consistent [OF c] c show ?thesis
    by blast
qed

subsection \<open>The king-square table of a concluded ruleset\<close>

lemma conclude_kingSquareIndex:
  assumes "conclude E v = Some v'" and "0 < SQUARE_NB E"
  shows "kingSquareIndex v' =
           (if nnueKing v' \<noteq> 0 \<and> nnueSquares v' \<le> SQUARE_NB E
            then (\<lambda>q. if int q \<in> set (king_squares E v')
                       then int32 (king_rank E v' 0 (int q) * nnuePieceIndices v')
                       else kingSquareIndex v q)
            else (kingSquareIndex v)(0 := 0))"
    and "nnueDimensions v' =
           int32 ((if nnueKing v' \<noteq> 0 \<and> nnueSquares v' \<le> SQUARE_NB E
                   then int (length (king_squares E v')) else 1) * nnuePieceIndices v')"
proof -
  let ?w = "v'\<lparr>kingSquareIndex := kingSquareIndex v\<rparr>"
  have a: "king_square_available E ?w = king_square_available E v'"
    by (simp add: king_square_available_def bitboardSquare_def fun_eq_iff)
  have w: "nnueKing ?w = nnueKing v'" "nnueSquares ?w = nnueSquares v'"
    "nnuePieceIndices ?w = nnuePieceIndices v'" "king_squares E ?w = king_squares E v'"
    "king_rank E ?w = king_rank E v'"
    by (simp_all add: sizes_defs king_squares_def king_squares_from_def king_rank_def
          a fun_eq_iff)
  from conclude_kingSquares(2) [OF assms(1)] obtain q
    where q: "kingSquare_table E ?w = Some (kingSquareIndex v', q)"
    by blast
  from q show "kingSquareIndex v' =
           (if nnueKing v' \<noteq> 0 \<and> nnueSquares v' \<le> SQUARE_NB E
            then (\<lambda>q. if int q \<in> set (king_squares E v')
                       then int32 (king_rank E v' 0 (int q) * nnuePieceIndices v')
                       else kingSquareIndex v q)
            else (kingSquareIndex v)(0 := 0))"
    unfolding kingSquare_table_result [OF assms(2)] w
    by (auto split: if_splits cong: if_cong)
  from q conclude_kingSquares(1) [OF assms(1) q]
  show "nnueDimensions v' =
           int32 ((if nnueKing v' \<noteq> 0 \<and> nnueSquares v' \<le> SQUARE_NB E
                   then int (length (king_squares E v')) else 1) * nnuePieceIndices v')"
    unfolding kingSquare_table_result [OF assms(2)] w
    by (auto split: if_splits cong: if_cong)
qed

subsection \<open>C7: the endgame-eligibility flag\<close>

lemma restrictedMobility_loop_iff:
  "restrictedMobility_loop v ps rm \<longleftrightarrow>
     rm \<or> (\<exists>pt. bit ps pt \<and> (mobilityRegion v WHITE pt \<noteq> 0 \<or> mobilityRegion v BLACK pt \<noteq> 0))"
proof (induction v ps rm rule: restrictedMobility_loop.induct)
  case (1 v ps rm)
  show ?case
  proof (cases "\<not> rm \<and> ps \<noteq> 0")
    case False
    then show ?thesis
      by (auto simp: restrictedMobility_loop_stop)
  next
    case True
    then have b: "bit ps (lsb ps)"
      by (simp add: lsb_bit)
    have ih: "restrictedMobility_loop v (unset_bit (lsb ps) ps)
                (mobilityRegion v WHITE (lsb ps) \<noteq> 0 \<or> mobilityRegion v BLACK (lsb ps) \<noteq> 0)
              \<longleftrightarrow> (mobilityRegion v WHITE (lsb ps) \<noteq> 0 \<or> mobilityRegion v BLACK (lsb ps) \<noteq> 0)
                  \<or> (\<exists>pt. bit (unset_bit (lsb ps) ps) pt
                        \<and> (mobilityRegion v WHITE pt \<noteq> 0 \<or> mobilityRegion v BLACK pt \<noteq> 0))"
      using 1 [of "lsb ps" "unset_bit (lsb ps) ps"] True
      by (auto simp: pop_lsb_def split: if_splits)
    have "restrictedMobility_loop v ps rm \<longleftrightarrow>
            restrictedMobility_loop v (unset_bit (lsb ps) ps)
              (mobilityRegion v WHITE (lsb ps) \<noteq> 0 \<or> mobilityRegion v BLACK (lsb ps) \<noteq> 0)"
      using True by (simp add: restrictedMobility_loop_step)
    also have "\<dots> \<longleftrightarrow> (\<exists>pt. bit ps pt
                        \<and> (mobilityRegion v WHITE pt \<noteq> 0 \<or> mobilityRegion v BLACK pt \<noteq> 0))"
      unfolding ih using b by (auto simp: bit_unset_bit_iff)
    finally show ?thesis
      using True by simp
  qed
qed

text \<open>
  C7. The endgame-eligibility flag is true exactly when none of the disqualifiers holds:
  an extinction value other than \<^verbatim>\<open>VALUE_NONE\<close>, a checkmate value other than
  \<^verbatim>\<open>-VALUE_MATE\<close>, a stalemate value other than \<^verbatim>\<open>VALUE_DRAW\<close>, material counting,
  a flag region of either colour, forced capture, check counting, the makpong rule,
  connect-N, blast on capture, petrify on capture, captures to hand, two boards, a mobility
  region for a piece type in play, a king type other than \<^verbatim>\<open>KING\<close>. So any one of them,
  switched on alone, makes the flag false.
\<close>

theorem C7_endgameEval:
  assumes "conclude E v = Some v'"
  shows "endgameEval v' \<longleftrightarrow>
           extinctionValue v = VALUE_NONE E
           \<and> checkmateValue v = - VALUE_MATE E
           \<and> stalemateValue v = VALUE_DRAW E
           \<and> materialCounting v = 0
           \<and> flagRegion v WHITE = 0 \<and> flagRegion v BLACK = 0
           \<and> \<not> mustCapture v
           \<and> \<not> checkCounting v
           \<and> \<not> makpongRule v
           \<and> connectN v = 0
           \<and> \<not> blastOnCapture v
           \<and> petrifyOnCaptureTypes v = 0
           \<and> \<not> capturesToHand v
           \<and> \<not> twoBoards v
           \<and> \<not> (\<exists>pt. bit (pieceTypes v) pt
                    \<and> (mobilityRegion v WHITE pt \<noteq> 0 \<or> mobilityRegion v BLACK pt \<noteq> 0))
           \<and> kingType v = KING E"
  unfolding conclude_endgameEval [OF assms] restrictedMobility_loop_iff
  by (simp add: set_endgameEval_def)

theorem C7_witness:
  "\<exists>v'. conclude sample_env sample_variant = Some v' \<and> endgameEval v'
     \<and> (\<exists>v''. conclude sample_env (sample_variant\<lparr>mustCapture := True\<rparr>) = Some v''
            \<and> \<not> endgameEval v'')"
proof -
  obtain v' where c: "conclude sample_env sample_variant = Some v'"
    using conclude_total [of sample_env sample_variant] by (auto simp: sample_env_def)
  obtain v'' where c': "conclude sample_env (sample_variant\<lparr>mustCapture := True\<rparr>) = Some v''"
    using conclude_total [of sample_env "sample_variant\<lparr>mustCapture := True\<rparr>"]
    by (auto simp: sample_env_def)
  have "endgameEval v'"
    unfolding C7_endgameEval [OF c] by (simp add: sample_env_def sample_variant_def)
  moreover have "\<not> endgameEval v''"
    unfolding C7_endgameEval [OF c'] by (simp add: sample_env_def sample_variant_def)
  ultimately show ?thesis
    using c c' by blast
qed

subsection \<open>C5: the choice of the anchor\<close>

lemma std_count_count_list: "std_count s c = count_list s c"
  by (induction s) (simp_all add: std_count_def)

lemma set_and_type_or:
  "set_and_type (a OR b) k \<noteq> 0 \<longleftrightarrow> bit a k \<or> bit b k"
  by (simp add: set_and_type_bit bit_or_iff)

lemma nnueKing_set_nnueKing:
  "nnueKing (set_nnueKing E v) =
     (let candidate =
            (if bit (pieceTypes v) (KING E) then KING E
             else if extinctionPieceCount v = 0 \<and> bit (extinctionPieceTypes v) (COMMONER E)
                  then COMMONER E
             else NO_PIECE_TYPE);
          fenBoard = takeWhile (\<lambda>c. c \<noteq> CHR '' '') (startFen v)
      in if candidate \<noteq> NO_PIECE_TYPE
            \<and> (bit (promotionPawnTypes v WHITE) candidate
                \<or> bit (promotionPawnTypes v BLACK) candidate
                \<or> bit (promotionPieceTypes v WHITE) candidate
                \<or> bit (promotionPieceTypes v BLACK) candidate
                \<or> candidate \<in> set (promotedPieceType v)
                \<or> count_list fenBoard (str_at (pieceToChar v) (make_piece E WHITE candidate)) \<noteq> 1
                \<or> count_list fenBoard (str_at (pieceToChar v) (make_piece E BLACK candidate)) \<noteq> 1)
         then NO_PIECE_TYPE else candidate)"
proof -
  define k1 where "k1 = nnueKing_candidate E v"
  define k2 where "k2 = nnueKing_promotion (v\<lparr>nnueKing := k1\<rparr>)"
  have k1: "k1 = (if bit (pieceTypes v) (KING E) then KING E
             else if extinctionPieceCount v = 0 \<and> bit (extinctionPieceTypes v) (COMMONER E)
                  then COMMONER E
             else NO_PIECE_TYPE)"
    by (simp add: k1_def nnueKing_candidate_def set_and_type_bit)
  have k2: "k2 = (if k1 \<noteq> NO_PIECE_TYPE
            \<and> (bit (promotionPawnTypes v WHITE) k1
                \<or> bit (promotionPawnTypes v BLACK) k1
                \<or> bit (promotionPieceTypes v WHITE) k1
                \<or> bit (promotionPieceTypes v BLACK) k1
                \<or> k1 \<in> set (promotedPieceType v)) then NO_PIECE_TYPE else k1)"
    by (simp add: k2_def nnueKing_promotion_def set_and_type_or)
  have k3: "nnueKing (set_nnueKing E v) = nnueKing_unique E (v\<lparr>nnueKing := k2\<rparr>)"
    by (simp add: set_nnueKing_def Let_def k2_def k1_def)
  have "nnueKing_unique E (v\<lparr>nnueKing := k2\<rparr>) =
      (if k2 \<noteq> NO_PIECE_TYPE
          \<and> (count_list (takeWhile (\<lambda>c. c \<noteq> CHR '' '') (startFen v))
                 (str_at (pieceToChar v) (make_piece E WHITE k2)) \<noteq> 1
             \<or> count_list (takeWhile (\<lambda>c. c \<noteq> CHR '' '') (startFen v))
                 (str_at (pieceToChar v) (make_piece E BLACK k2)) \<noteq> 1)
       then NO_PIECE_TYPE else k2)"
    by (simp add: nnueKing_unique_def Let_def std_count_count_list substr_to_space_def)
  then show ?thesis
    unfolding k3 k2 Let_def k1 [symmetric]
    by (simp add: NO_PIECE_TYPE_def)
qed

text \<open>
  C5. The anchor \<^verbatim>\<open>nnueKing\<close> after \<^verbatim>\<open>conclude\<close> is the king type if it is in play;
  otherwise the commoner if the extinction piece count is zero and the commoner is among
  the extinction piece types; otherwise none. The anchor so chosen falls back to none if
  it is among either colour's promotion pawn types or promotion piece types, or is the
  promoted form of a piece type, or if its character does not occur exactly once per
  colour in the starting position's part before the first space.
\<close>

theorem C5_nnueKing_selection:
  assumes "conclude E v = Some v'"
  shows "nnueKing v' =
     (let candidate =
            (if bit (pieceTypes v) (KING E) then KING E
             else if extinctionPieceCount v = 0 \<and> bit (extinctionPieceTypes v) (COMMONER E)
                  then COMMONER E
             else NO_PIECE_TYPE);
          fenBoard = takeWhile (\<lambda>c. c \<noteq> CHR '' '') (startFen v)
      in if candidate \<noteq> NO_PIECE_TYPE
            \<and> (bit (promotionPawnTypes v WHITE) candidate
                \<or> bit (promotionPawnTypes v BLACK) candidate
                \<or> bit (promotionPieceTypes v WHITE) candidate
                \<or> bit (promotionPieceTypes v BLACK) candidate
                \<or> candidate \<in> set (promotedPieceType v)
                \<or> count_list fenBoard (str_at (pieceToChar v) (make_piece E WHITE candidate)) \<noteq> 1
                \<or> count_list fenBoard (str_at (pieceToChar v) (make_piece E BLACK candidate)) \<noteq> 1)
         then NO_PIECE_TYPE else candidate)"
  unfolding conclude_nnueKing [OF assms] by (rule nnueKing_set_nnueKing)

theorem C5_witness:
  "\<exists>v'. conclude sample_env sample_variant = Some v' \<and> nnueKing v' = KING sample_env"
proof -
  obtain v' where c: "conclude sample_env sample_variant = Some v'"
    using conclude_total [of sample_env sample_variant] by (auto simp: sample_env_def)
  have "nnueKing v' = KING sample_env"
    unfolding C5_nnueKing_selection [OF c]
    by (simp add: sample_env_def sample_variant_def str_at_def NO_PIECE_TYPE_def)
  with c show ?thesis
    by blast
qed

subsection \<open>C10: how far the two scans of the starting position read\<close>

lemma count_pieces_takeWhile:
  "count_pieces v s n =
     n + int (length (filter (\<lambda>c. c \<in> set (pieceToChar v) \<or> c \<in> set (pieceToCharSynonyms v))
                        (takeWhile (\<lambda>c. \<not> isspace c) s)))"
  by (induction s arbitrary: n) simp_all

lemma nnueKing_set_nnueKing_count:
  assumes "nnueKing (set_nnueKing E v) \<noteq> NO_PIECE_TYPE"
  shows "count_list (takeWhile (\<lambda>c. c \<noteq> CHR '' '') (startFen v))
           (str_at (pieceToChar v) (make_piece E WHITE (nnueKing (set_nnueKing E v)))) = 1"
    and "count_list (takeWhile (\<lambda>c. c \<noteq> CHR '' '') (startFen v))
           (str_at (pieceToChar v) (make_piece E BLACK (nnueKing (set_nnueKing E v)))) = 1"
  using assms unfolding nnueKing_set_nnueKing Let_def
  by (simp_all split: if_splits)

text \<open>
  C10, as the code has it. The count that validates the anchor reads the starting position
  up to its first space character, the count of the pieces up to its first white-space
  character (\<^verbatim>\<open>isspace\<close>: a space, or one of the controls 9 to 13). A pocket in brackets
  stands before either, so its pieces are in both counts: an anchor that is kept occurs
  exactly once per colour in the part before the first space, the pocket included, and
  every piece character before the first white space adds to \<^verbatim>\<open>nnueMaxPieces\<close>.
\<close>

theorem C10_scans_of_startFen:
  assumes "conclude E v = Some v'"
  shows "nnueMaxPieces v' =
           (if twoBoards v then 2 else 1)
           * int (length (filter (\<lambda>c. c \<in> set (pieceToChar v) \<or> c \<in> set (pieceToCharSynonyms v))
                            (takeWhile (\<lambda>c. \<not> isspace c) (startFen v))))
         \<and> (nnueKing v' \<noteq> NO_PIECE_TYPE \<longrightarrow>
              count_list (takeWhile (\<lambda>c. c \<noteq> CHR '' '') (startFen v))
                (str_at (pieceToChar v) (make_piece E WHITE (nnueKing v'))) = 1
              \<and> count_list (takeWhile (\<lambda>c. c \<noteq> CHR '' '') (startFen v))
                  (str_at (pieceToChar v) (make_piece E BLACK (nnueKing v'))) = 1)"
  using nnueKing_set_nnueKing_count [of E v]
  unfolding conclude_nnueMaxPieces [OF assms] conclude_nnueKing [OF assms]
  by (simp add: nnueMaxPieces_value_def count_pieces_takeWhile)

text \<open>
  The claim as stated fails where the first white-space character is not a space: with a
  tab between the two kings the part before the first white space holds no black king,
  yet the anchor is kept, since the count reads on to the first space.
\<close>

theorem C10_counterexample:
  "map_option nnueKing
     (conclude sample_env
        (sample_variant\<lparr>startFen := [CHR ''K'', CHR 0x09, CHR ''k'', CHR '' '', CHR ''w'']\<rparr>))
     = Some (KING sample_env)
   \<and> count_list (takeWhile (\<lambda>c. \<not> isspace c) [CHR ''K'', CHR 0x09, CHR ''k'', CHR '' '', CHR ''w''])
        (str_at (pieceToChar sample_variant) (make_piece sample_env BLACK (KING sample_env))) = 0"
proof -
  let ?v = "sample_variant\<lparr>startFen := [CHR ''K'', CHR 0x09, CHR ''k'', CHR '' '', CHR ''w'']\<rparr>"
  obtain v' where c: "conclude sample_env ?v = Some v'"
    using conclude_total [of sample_env ?v] by (auto simp: sample_env_def)
  have "nnueKing v' = KING sample_env"
    unfolding conclude_nnueKing [OF c] nnueKing_set_nnueKing
    by (simp add: sample_env_def sample_variant_def str_at_def NO_PIECE_TYPE_def)
  with c show ?thesis
    by (simp add: sample_env_def sample_variant_def str_at_def isspace_def)
qed

theorem C10_witness:
  "(\<exists>v'. conclude sample_env sample_variant = Some v'
         \<and> nnueMaxPieces v' = 4
         \<and> count_list ''1pk/3/KP1'' (CHR ''K'') = 1
         \<and> count_list ''1pk/3/KP1'' (CHR ''k'') = 1)
   \<and> (\<exists>v'. conclude sample_env (sample_variant\<lparr>startFen := ''1pk/3/KP1[Kk] w - - 0 1''\<rparr>)
              = Some v'
         \<and> nnueMaxPieces v' = 6
         \<and> nnueKing v' = NO_PIECE_TYPE)"
proof -
  let ?p = "sample_variant\<lparr>startFen := ''1pk/3/KP1[Kk] w - - 0 1''\<rparr>"
  obtain v' where c: "conclude sample_env sample_variant = Some v'"
    using conclude_total [of sample_env sample_variant] by (auto simp: sample_env_def)
  obtain v'' where c': "conclude sample_env ?p = Some v''"
    using conclude_total [of sample_env ?p] by (auto simp: sample_env_def)
  have k: "nnueKing v' = 6"
    unfolding conclude_nnueKing [OF c] nnueKing_set_nnueKing
    by (simp add: sample_env_def sample_variant_def str_at_def NO_PIECE_TYPE_def)
  have k': "nnueKing v'' = NO_PIECE_TYPE"
    unfolding conclude_nnueKing [OF c'] nnueKing_set_nnueKing
    by (simp add: sample_env_def sample_variant_def str_at_def NO_PIECE_TYPE_def)
  have 1: "nnueMaxPieces v' = 4
         \<and> count_list ''1pk/3/KP1'' (CHR ''K'') = 1
         \<and> count_list ''1pk/3/KP1'' (CHR ''k'') = 1"
    using C10_scans_of_startFen [OF c] k
    by (simp add: sample_env_def sample_variant_def str_at_def NO_PIECE_TYPE_def isspace_def)
  have 2: "nnueMaxPieces v'' = 6"
    using C10_scans_of_startFen [OF c']
    by (simp add: sample_env_def sample_variant_def str_at_def isspace_def)
  from c c' 1 2 k' show ?thesis
    by blast
qed

subsection \<open>C6: the king-square index table on the squares of the anchor\<close>

lemma bitset_count_pos: "bit ps n \<Longrightarrow> 0 < bitset_count ps"
  using bit_lt_64 [of ps n] by (auto simp: bitset_count_def filter_empty_conv)

lemma bitset_count_le: "bitset_count ps \<le> 64"
  using length_filter_le [of "bit ps" "[0..<64]"] by (simp add: bitset_count_def)

text \<open>The two sizes of lines 199 and 200, reduced once.\<close>

lemma nnuePieceIndices_int32:
  "nnueNonDropPieceIndices v =
     int32 ((2 * int (bitset_count (pieceTypes v)) - has_nnueKing v) * nnueSquares v)"
  "nnuePieceIndices v =
     int32 ((2 * int (bitset_count (pieceTypes v)) - has_nnueKing v) * nnueSquares v
            + 2 * (int (bitset_count (pieceTypes v)) - has_nnueKing v) * nnuePockets v)"
proof -
  define c where "c = int (bitset_count (pieceTypes v))"
  define h where "h = has_nnueKing v"
  define n where "n = nnueSquares v"
  define p where "p = nnuePockets v"
  have 1: "((2 * c - size_t h) * size_t n) mod 4294967296 = ((2 * c - h) * n) mod 4294967296"
    by (rule mod_mult_cong [OF mod_diff_cong [OF refl size_t_mod] size_t_mod])
  have "nnueNonDropPieceIndices v = int32 ((2 * c - size_t h) * size_t n)"
    by (simp add: nnueNonDropPieceIndices_def int32_size_t(1) c_def h_def n_def)
  also have "\<dots> = int32 ((2 * c - h) * n)"
    using 1 by (rule int32_cong)
  finally have a: "nnueNonDropPieceIndices v = int32 ((2 * c - h) * n)" .
  then show "nnueNonDropPieceIndices v =
     int32 ((2 * int (bitset_count (pieceTypes v)) - has_nnueKing v) * nnueSquares v)"
    by (simp add: c_def h_def n_def)
  have 2: "size_t (int32 ((2 * c - h) * n)) mod 4294967296 = ((2 * c - h) * n) mod 4294967296"
    by (simp add: size_t_mod int32_mod)
  have 3: "(2 * (c - size_t h) * size_t p) mod 4294967296 = (2 * (c - h) * p) mod 4294967296"
    by (rule mod_mult_cong [OF mod_mult_cong [OF refl mod_diff_cong [OF refl size_t_mod]]
          size_t_mod])
  have 4: "(size_t (int32 ((2 * c - h) * n)) + 2 * (c - size_t h) * size_t p) mod 4294967296
      = ((2 * c - h) * n + 2 * (c - h) * p) mod 4294967296"
    using 2 3 by (rule mod_add_cong)
  have "nnuePieceIndices v
      = int32 (size_t (int32 ((2 * c - h) * n)) + 2 * (c - size_t h) * size_t p)"
    unfolding nnuePieceIndices_def a by (simp add: int32_size_t(1) c_def h_def p_def)
  also have "\<dots> = int32 ((2 * c - h) * n + 2 * (c - h) * p)"
    using 4 by (rule int32_cong)
  finally show "nnuePieceIndices v =
     int32 ((2 * int (bitset_count (pieceTypes v)) - has_nnueKing v) * nnueSquares v
            + 2 * (int (bitset_count (pieceTypes v)) - has_nnueKing v) * nnuePockets v)"
    by (simp add: c_def h_def n_def p_def)
qed

text \<open>On a board of at most 2048 squares no computation of lines 196 to 200 leaves the
  range of \<^verbatim>\<open>int\<close>.\<close>

lemma sizes_exact:
  assumes "0 \<le> maxFile v" and "0 \<le> maxRank v"
    and "(maxRank v + 1) * (maxFile v + 1) \<le> 2048"
  shows "nnueSquares v = (maxRank v + 1) * (maxFile v + 1)"
    and "nnuePockets v = (if nnueUsePockets v then 2 * (maxFile v + 1) else 0)"
    and "nnuePieceIndices v =
           (2 * int (bitset_count (pieceTypes v)) - has_nnueKing v) * nnueSquares v
           + 2 * (int (bitset_count (pieceTypes v)) - has_nnueKing v) * nnuePockets v"
    and "\<bar>nnuePieceIndices v\<bar> \<le> 786432"
proof -
  define c where "c = int (bitset_count (pieceTypes v))"
  define h where "h = has_nnueKing v"
  define f where "f = maxFile v + 1"
  define n where "n = (maxRank v + 1) * (maxFile v + 1)"
  define p where "p = (if nnueUsePockets v then 2 * f else 0)"
  have c: "0 \<le> c" "c \<le> 64"
    using bitset_count_le [of "pieceTypes v"] by (simp_all add: c_def)
  have h: "0 \<le> h" "h \<le> 1"
    by (simp_all add: h_def has_nnueKing_def)
  have f: "1 \<le> f"
    using assms(1) by (simp add: f_def)
  have "1 * f \<le> (maxRank v + 1) * f"
    using assms(2) f by (intro mult_right_mono) auto
  then have fn: "f \<le> n"
    by (simp add: n_def f_def)
  have n: "1 \<le> n" "n \<le> 2048"
    using fn f assms(3) by (simp_all add: n_def)
  have p: "0 \<le> p" "p \<le> 4096"
    using f fn n by (simp_all add: p_def)
  show sq: "nnueSquares v = (maxRank v + 1) * (maxFile v + 1)"
    using n by (simp add: nnueSquares_def n_def [symmetric] int32_id)
  show pk: "nnuePockets v = (if nnueUsePockets v then 2 * (maxFile v + 1) else 0)"
    using f fn n by (simp add: nnuePockets_def f_def [symmetric] int32_id)
  have a1: "(2 * c - h) * n \<le> 128 * 2048"
    using c h n by (intro mult_mono) auto
  have "- 1 * n \<le> (2 * c - h) * n"
    using c h n by (intro mult_right_mono) auto
  with n have a2: "- 2048 \<le> (2 * c - h) * n"
    by simp
  have b1: "2 * (c - h) * p \<le> 128 * 4096"
    using c h p by (intro mult_mono) auto
  have "- 2 * p \<le> 2 * (c - h) * p"
    using c h p by (intro mult_right_mono) auto
  with p have b2: "- 8192 \<le> 2 * (c - h) * p"
    by simp
  from a1 a2 b1 b2 have r: "- 10240 \<le> (2 * c - h) * n + 2 * (c - h) * p"
    "(2 * c - h) * n + 2 * (c - h) * p \<le> 786432"
    by linarith+
  have "nnuePieceIndices v = int32 ((2 * c - h) * n + 2 * (c - h) * p)"
    unfolding nnuePieceIndices_int32 sq pk
    by (simp add: c_def h_def n_def p_def f_def)
  also have "\<dots> = (2 * c - h) * n + 2 * (c - h) * p"
    using r by (intro int32_id) linarith+
  finally have e: "nnuePieceIndices v = (2 * c - h) * n + 2 * (c - h) * p" .
  then show "nnuePieceIndices v =
           (2 * int (bitset_count (pieceTypes v)) - has_nnueKing v) * nnueSquares v
           + 2 * (int (bitset_count (pieceTypes v)) - has_nnueKing v) * nnuePockets v"
    unfolding sq pk by (simp add: c_def h_def n_def p_def f_def)
  from e r show "\<bar>nnuePieceIndices v\<bar> \<le> 786432"
    by linarith
qed

lemma nnuePieceIndices_nonzero:
  assumes "0 \<le> maxFile v" and "0 \<le> maxRank v" and "nnueKing v \<noteq> NO_PIECE_TYPE"
    and "(maxRank v + 1) * (maxFile v + 1) \<le> 2048"
  shows "nnuePieceIndices v \<noteq> 0"
proof -
  define c where "c = int (bitset_count (pieceTypes v))"
  define n where "n = nnueSquares v"
  define p where "p = nnuePockets v"
  note ex = sizes_exact [OF assms(1,2,4)]
  have n: "1 \<le> n"
  proof -
    have "1 * 1 \<le> (maxRank v + 1) * (maxFile v + 1)"
      using assms(1,2) by (intro mult_mono) auto
    then show ?thesis by (simp add: n_def ex(1))
  qed
  have p: "0 \<le> p"
    using assms(1) by (simp add: p_def ex(2))
  have c: "0 \<le> c"
    by (simp add: c_def)
  have eq: "nnuePieceIndices v = (2 * c - 1) * n + 2 * (c - 1) * p"
    using assms(3) unfolding ex(3)
    by (simp add: has_nnueKing_def c_def n_def p_def)
  show ?thesis
  proof (cases "c = 0")
    case True
    with n p eq show ?thesis by simp
  next
    case False
    with c have c1: "1 \<le> c" by simp
    then have "1 * n \<le> (2 * c - 1) * n"
      using n by (intro mult_right_mono) auto
    then have a: "n \<le> (2 * c - 1) * n"
      by simp
    have b: "0 \<le> 2 * (c - 1) * p"
      using c1 p by simp
    from a b n have "1 \<le> (2 * c - 1) * n + 2 * (c - 1) * p"
      by linarith
    with eq show ?thesis
      by linarith
  qed
qed

lemma king_squares_length: "int (length (king_squares E v)) \<le> max 0 (nnueSquares v)"
proof -
  have "length (king_squares E v) \<le> length [0..nnueSquares v - 1]"
    unfolding king_squares_def king_squares_from_def by (rule length_filter_le)
  then show ?thesis
    by simp
qed

lemma kingSquareIndex_dense:
  assumes "conclude E v = Some v'"
    and "nnueKing v' \<noteq> NO_PIECE_TYPE"
    and "0 \<le> maxFile v" and "maxFile v \<le> FILE_MAX E"
    and "0 \<le> maxRank v" and "maxRank v \<le> RANK_MAX E"
    and "(RANK_MAX E + 1) * (FILE_MAX E + 1) \<le> SQUARE_NB E"
    and "SQUARE_NB E \<le> 2048"
  shows "map (\<lambda>s. kingSquareIndex v' (nat s)) (king_squares E v')
           = map (\<lambda>i. int i * nnuePieceIndices v') [0..<length (king_squares E v')]"
    and "nnuePieceIndices v' \<noteq> 0"
    and "inj_on (\<lambda>s. kingSquareIndex v' (nat s)) (set (king_squares E v'))"
    and "int q \<notin> set (king_squares E v') \<Longrightarrow> kingSquareIndex v' q = kingSquareIndex v q"
    and "nnueDimensions v' = int (length (king_squares E v')) * nnuePieceIndices v'"
proof -
  have raw: "maxFile v' = maxFile v" "maxRank v' = maxRank v"
    using conclude_same_raw [OF assms(1)] by (simp_all add: same_raw_def)
  have le: "(maxRank v + 1) * (maxFile v + 1) \<le> (RANK_MAX E + 1) * (FILE_MAX E + 1)"
    using assms(3-6) by (intro mult_mono) auto
  with assms(7,8) have small: "(maxRank v' + 1) * (maxFile v' + 1) \<le> 2048"
    by (simp add: raw)
  note ex = sizes_exact [of v', unfolded raw, OF assms(3,5) small [unfolded raw]]
  from le assms(7) have fit: "nnueSquares v' \<le> SQUARE_NB E"
    by (simp add: ex(1))
  have "1 * 1 \<le> (maxRank v + 1) * (maxFile v + 1)"
    using assms(3,5) by (intro mult_mono) auto
  with fit have sq: "0 < SQUARE_NB E"
    by (simp add: ex(1))
  have k: "nnueKing v' \<noteq> 0"
    using assms(2) by (simp add: NO_PIECE_TYPE_def)
  have len: "int (length (king_squares E v')) \<le> 2048"
    using king_squares_length [of E v'] fit assms(8) by simp
  have exact: "int32 (int i * nnuePieceIndices v') = int i * nnuePieceIndices v'"
    if "i \<le> length (king_squares E v')" for i
  proof -
    have i: "int i \<le> 2048"
      using that len by simp
    have "\<bar>int i * nnuePieceIndices v'\<bar> = int i * \<bar>nnuePieceIndices v'\<bar>"
      by (simp add: abs_mult)
    also have "\<dots> \<le> 2048 * 786432"
      using i ex(4) by (intro mult_mono) auto
    finally have "\<bar>int i * nnuePieceIndices v'\<bar> \<le> 1610612736"
      by simp
    then show ?thesis
      by (intro int32_id) linarith+
  qed
  have tab: "kingSquareIndex v' =
      (\<lambda>q. if int q \<in> set (king_squares E v')
            then int32 (king_rank E v' 0 (int q) * nnuePieceIndices v')
            else kingSquareIndex v q)"
    using conclude_kingSquareIndex(1) [OF assms(1) sq] k fit by simp
  show p: "nnuePieceIndices v' \<noteq> 0"
    using assms(2,3,5) small by (intro nnuePieceIndices_nonzero) (simp_all add: raw)
  have entry: "kingSquareIndex v' (nat (king_squares E v' ! i)) = int i * nnuePieceIndices v'"
    if "i < length (king_squares E v')" for i
  proof -
    have "king_squares E v' ! i \<in> set (king_squares E v')"
      using that by simp
    moreover from this have "0 \<le> king_squares E v' ! i"
      by (rule king_squares_nonneg)
    ultimately show ?thesis
      using that exact [of i] by (subst tab) (simp add: king_rank_nth)
  qed
  show "map (\<lambda>s. kingSquareIndex v' (nat s)) (king_squares E v')
           = map (\<lambda>i. int i * nnuePieceIndices v') [0..<length (king_squares E v')]"
    by (rule nth_equalityI) (simp_all add: entry)
  show "inj_on (\<lambda>s. kingSquareIndex v' (nat s)) (set (king_squares E v'))"
  proof (rule inj_onI)
    fix x y
    assume "x \<in> set (king_squares E v')" "y \<in> set (king_squares E v')"
      and eq: "kingSquareIndex v' (nat x) = kingSquareIndex v' (nat y)"
    then obtain i j where i: "i < length (king_squares E v')" "x = king_squares E v' ! i"
      and j: "j < length (king_squares E v')" "y = king_squares E v' ! j"
      by (auto simp: in_set_conv_nth)
    from eq have "int i * nnuePieceIndices v' = int j * nnuePieceIndices v'"
      by (simp add: i j entry)
    with p have "i = j"
      by simp
    with i j show "x = y"
      by simp
  qed
  show "kingSquareIndex v' q = kingSquareIndex v q" if "int q \<notin> set (king_squares E v')"
    using that by (subst tab) simp
  show "nnueDimensions v' = int (length (king_squares E v')) * nnuePieceIndices v'"
    using conclude_kingSquareIndex(2) [OF assms(1) sq] k fit
      exact [of "length (king_squares E v')"] by simp
qed

lemma conclude_king_squares:
  assumes "conclude E v = Some v'"
  shows "king_squares E v' = king_squares E (v\<lparr>nnueKing := nnueKing v'\<rparr>)"
    and "nnuePieceIndices v' =
           nnuePieceIndices (v\<lparr>nnueKing := nnueKing v', nnueUsePockets := nnueUsePockets v'\<rparr>)"
proof -
  have raw: "same_raw v' v"
    by (rule conclude_same_raw [OF assms])
  then have "king_square_available E v' = king_square_available E (v\<lparr>nnueKing := nnueKing v'\<rparr>)"
    by (simp add: same_raw_def king_square_available_def bitboardSquare_def fun_eq_iff)
  moreover have "nnueSquares v' = nnueSquares (v\<lparr>nnueKing := nnueKing v'\<rparr>)"
    using raw by (simp add: same_raw_def nnueSquares_def)
  ultimately show "king_squares E v' = king_squares E (v\<lparr>nnueKing := nnueKing v'\<rparr>)"
    by (simp add: king_squares_def king_squares_from_def)
  show "nnuePieceIndices v' =
           nnuePieceIndices (v\<lparr>nnueKing := nnueKing v', nnueUsePockets := nnueUsePockets v'\<rparr>)"
    using raw by (intro nnuePieceIndices_raw) simp_all
qed

text \<open>
  C6. For a ruleset with an anchor and a board extent within the bounds, in a build
  whose table has at most 2048 entries (then no product of lines 196 to 238 leaves the
  range of \<^verbatim>\<open>int\<close>), the entries of
  the king-square index table at the squares the anchor can stand on, taken in ascending
  order of the squares, are \<open>0 * n\<close>, \<open>1 * n\<close>, \<open>2 * n\<close>, ... for the per-king feature
  count \<open>n = nnuePieceIndices\<close>, and \<open>n\<close> is not zero: the counter behind the entries
  maps those squares one to one onto \<open>0, 1, ..., m - 1\<close>, and no two of them have the
  same entry. Every other square keeps the entry it had before \<^verbatim>\<open>conclude\<close>.
\<close>

theorem C6_kingSquareIndex_dense:
  assumes "conclude E v = Some v'"
    and "nnueKing v' \<noteq> NO_PIECE_TYPE"
    and "0 \<le> maxFile v" and "maxFile v \<le> FILE_MAX E"
    and "0 \<le> maxRank v" and "maxRank v \<le> RANK_MAX E"
    and "(RANK_MAX E + 1) * (FILE_MAX E + 1) \<le> SQUARE_NB E"
    and "SQUARE_NB E \<le> 2048"
  shows "map (\<lambda>s. kingSquareIndex v' (nat s)) (king_squares E v')
           = map (\<lambda>i. int i * nnuePieceIndices v') [0..<length (king_squares E v')]
         \<and> nnuePieceIndices v' \<noteq> 0
         \<and> inj_on (\<lambda>s. kingSquareIndex v' (nat s)) (set (king_squares E v'))
         \<and> (\<forall>q. int q \<notin> set (king_squares E v') \<longrightarrow>
                kingSquareIndex v' q = kingSquareIndex v q)
         \<and> nnueDimensions v' = int (length (king_squares E v')) * nnuePieceIndices v'"
  using kingSquareIndex_dense [OF assms] by blast

theorem C6_witness:
  "\<exists>v'. conclude sample_env palace_variant = Some v'
        \<and> nnueKing v' = KING sample_env
        \<and> king_squares sample_env v' = [0, 1, 2]
        \<and> map (kingSquareIndex v') [0, 1, 2] = [0, 27, 54]
        \<and> map (kingSquareIndex v') [3, 4, 5, 6, 7, 8] = [- 1, - 1, - 1, - 1, - 1, - 1]
        \<and> nnueDimensions v' = 81"
proof -
  obtain v' where c: "conclude sample_env palace_variant = Some v'"
    using conclude_total [of sample_env palace_variant] by (auto simp: sample_env_def)
  have k: "nnueKing v' = 6"
    unfolding conclude_nnueKing [OF c] nnueKing_set_nnueKing
    by (simp add: sample_env_def sample_variant_def palace_variant_def str_at_def
          NO_PIECE_TYPE_def)
  have u: "nnueUsePockets v' = False"
    unfolding conclude_nnueUsePockets [OF c]
    by (simp add: nnueUsePockets_value_def sample_variant_def palace_variant_def)
  have ks: "king_squares sample_env v' = [0, 1, 2]"
    unfolding conclude_king_squares(1) [OF c] k
    by (simp add: king_squares_def king_squares_from_def king_square_available_def
          sample_variant_def sample_env_def nnueSquares_def palace_variant_def
          bitboardSquare_def cpp_div_def upto_rec1 int32_def)
  have p: "nnuePieceIndices v' = 27"
    unfolding conclude_king_squares(2) [OF c] k u
    by (simp add: sizes_defs bitset_count_def upt_rec sample_variant_def palace_variant_def
          NO_PIECE_TYPE_def int32_def size_t_def)
  have "map (\<lambda>s. kingSquareIndex v' (nat s)) [0, 1, 2] = map (\<lambda>i. int i * 27) [0..<3]
         \<and> (\<forall>q. int q \<notin> set [0, 1, 2] \<longrightarrow>
                kingSquareIndex v' q = kingSquareIndex palace_variant q)
         \<and> nnueDimensions v' = 3 * 27"
    using C6_kingSquareIndex_dense [OF c, unfolded ks p] k
    by (simp add: sample_env_def sample_variant_def palace_variant_def NO_PIECE_TYPE_def
          upt_rec)
  then have "map (kingSquareIndex v') [0, 1, 2] = [0, 27, 54]
        \<and> map (kingSquareIndex v') [3, 4, 5, 6, 7, 8] = [- 1, - 1, - 1, - 1, - 1, - 1]
        \<and> nnueDimensions v' = 81"
    by (simp add: upt_rec palace_variant_def)
  with c k ks show ?thesis
    by (simp add: sample_env_def)
qed

subsection \<open>C8: no write outside the king-square table\<close>

lemma king_squares_below:
  "q \<in> set (king_squares E v) \<Longrightarrow> 0 \<le> q \<and> q < nnueSquares v"
  by (simp add: king_squares_def king_squares_from_def)

lemma bitboardSquare_divisor:
  assumes "0 \<le> s" and "s < nnueSquares v"
  shows "int32 (maxFile v + 1) \<noteq> 0"
proof
  assume "int32 (maxFile v + 1) = 0"
  then have "int32 ((maxRank v + 1) * int32 (maxFile v + 1)) = int32 0"
    by simp
  then have "nnueSquares v = 0"
    by (simp add: nnueSquares_def int32_arith) (simp add: int32_def)
  with assms show False
    by simp
qed

text \<open>
  C8. For every ruleset, also one whose board extent is beyond the supported bounds,
  \<^verbatim>\<open>conclude\<close> returns and every write to \<^verbatim>\<open>kingSquareIndex\<close> is inside the table
  (the model answers \<open>None\<close> on a write outside it, and its loops are total functions):
  when the square count \<open>nnueSquares\<close>, the \<^verbatim>\<open>int\<close> that line 196 computes from
  \<open>(maxRank + 1) * (maxFile + 1)\<close>, is larger than the table, the loop over the squares
  is skipped and only the fallback entry at square 0 is written; and in every case an
  entry that \<^verbatim>\<open>conclude\<close> changes lies inside the table. The table has \<^verbatim>\<open>SQUARE_NB\<close>
  entries, at least one.
\<close>

theorem C8_kingSquareIndex_in_range:
  assumes "0 < SQUARE_NB E"
  shows "\<exists>v'. conclude E v = Some v'
           \<and> (SQUARE_NB E < nnueSquares v \<longrightarrow>
                kingSquareIndex v' = (kingSquareIndex v)(0 := 0)
                \<and> nnueDimensions v' = 1 * nnuePieceIndices v')
           \<and> (\<forall>q. kingSquareIndex v' q \<noteq> kingSquareIndex v q \<longrightarrow> int q < SQUARE_NB E)"
proof -
  obtain v' where c: "conclude E v = Some v'"
    using conclude_total [OF assms] by blast
  have sq: "nnueSquares v' = nnueSquares v"
    using conclude_same_raw [OF c] by (simp add: nnueSquares_def same_raw_def)
  note k = conclude_kingSquareIndex [OF c assms, unfolded sq]
  have "int32 (nnuePieceIndices v') = nnuePieceIndices v'"
    by (simp add: nnuePieceIndices_def int32_arith)
  with k have 1: "SQUARE_NB E < nnueSquares v \<longrightarrow>
      kingSquareIndex v' = (kingSquareIndex v)(0 := 0)
      \<and> nnueDimensions v' = 1 * nnuePieceIndices v'"
    by simp
  have 2: "int q < SQUARE_NB E" if q: "kingSquareIndex v' q \<noteq> kingSquareIndex v q" for q
  proof (cases "nnueKing v' \<noteq> 0 \<and> nnueSquares v \<le> SQUARE_NB E")
    case True
    with k(1) q have "int q \<in> set (king_squares E v')"
      by (auto split: if_splits)
    then have "int q < nnueSquares v'"
      using king_squares_below by blast
    with True sq show ?thesis
      by simp
  next
    case False
    with k(1) q have "q = 0"
      by (auto split: if_splits)
    with assms show ?thesis
      by simp
  qed
  from c 1 2 show ?thesis
    by blast
qed

theorem C8_witness:
  "(\<exists>v'. conclude sample_env (palace_variant\<lparr>maxRank := 30000, maxFile := 30000\<rparr>) = Some v'
         \<and> nnueSquares (palace_variant\<lparr>maxRank := 30000, maxFile := 30000\<rparr>) = 900060001
         \<and> kingSquareIndex v' = (\<lambda>s. - 1)(0 := 0)
         \<and> nnueDimensions v' = - 1594787293)
   \<and> (\<exists>v'. conclude sample_env (palace_variant\<lparr>maxRank := 65535, maxFile := 65535\<rparr>) = Some v'
         \<and> nnueSquares (palace_variant\<lparr>maxRank := 65535, maxFile := 65535\<rparr>) = 0
         \<and> kingSquareIndex v' = (\<lambda>s. - 1)
         \<and> nnueDimensions v' = 0)"
proof -
  let ?a = "palace_variant\<lparr>maxRank := 30000, maxFile := 30000\<rparr>"
  let ?b = "palace_variant\<lparr>maxRank := 65535, maxFile := 65535\<rparr>"
  have sq: "0 < SQUARE_NB sample_env"
    by (simp add: sample_env_def)
  have na: "nnueSquares ?a = 900060001" and nb: "nnueSquares ?b = 0"
    by (simp_all add: nnueSquares_def int32_def)
  from C8_kingSquareIndex_in_range [OF sq, of ?a] obtain va
    where a: "conclude sample_env ?a = Some va"
      and fa: "SQUARE_NB sample_env < nnueSquares ?a \<longrightarrow>
                 kingSquareIndex va = (kingSquareIndex ?a)(0 := 0)
                 \<and> nnueDimensions va = 1 * nnuePieceIndices va"
    by blast
  have ka: "nnueKing va = 6"
    unfolding conclude_nnueKing [OF a] nnueKing_set_nnueKing
    by (simp add: sample_env_def sample_variant_def palace_variant_def str_at_def
          NO_PIECE_TYPE_def)
  have ua: "nnueUsePockets va = False"
    unfolding conclude_nnueUsePockets [OF a]
    by (simp add: nnueUsePockets_value_def sample_variant_def palace_variant_def)
  have pa: "nnuePieceIndices va = - 1594787293"
    unfolding conclude_king_squares(2) [OF a] ka ua
    by (simp add: sizes_defs bitset_count_def upt_rec sample_variant_def palace_variant_def
          NO_PIECE_TYPE_def int32_def size_t_def)
  from fa na pa have 1: "kingSquareIndex va = (\<lambda>s. - 1)(0 := 0)
      \<and> nnueDimensions va = - 1594787293"
    by (simp add: sample_env_def palace_variant_def)
  from C8_kingSquareIndex_in_range [OF sq, of ?b] obtain vb
    where b: "conclude sample_env ?b = Some vb"
    by blast
  have kb: "nnueKing vb = 6"
    unfolding conclude_nnueKing [OF b] nnueKing_set_nnueKing
    by (simp add: sample_env_def sample_variant_def palace_variant_def str_at_def
          NO_PIECE_TYPE_def)
  have sb: "nnueSquares vb = 0"
    using conclude_same_raw [OF b] nb by (simp add: nnueSquares_def same_raw_def)
  then have "king_squares sample_env vb = []"
    by (simp add: king_squares_def king_squares_from_def)
  with conclude_kingSquareIndex [OF b sq] kb sb
  have 2: "kingSquareIndex vb = (\<lambda>s. - 1) \<and> nnueDimensions vb = 0"
    by (simp add: sample_env_def palace_variant_def int32_def)
  from a na 1 b nb 2 show ?thesis
    by blast
qed

subsection \<open>C1: what \<^verbatim>\<open>add\<close> does to the registry\<close>

text \<open>
  C1, as the code has it. \<^verbatim>\<open>add(name, ruleset)\<close> runs \<^verbatim>\<open>conclude\<close> on the ruleset and
  then inserts the result under the name with \<^verbatim>\<open>std::map::insert\<close>: when the name is
  not in the registry it maps to the concluded ruleset afterwards, and when it is there
  already the registry stays as it was, the earlier entry kept.
\<close>

theorem C1_add_keeps_earlier_entry:
  assumes "0 < SQUARE_NB E"
  shows "\<exists>v'. conclude E v = Some v'
           \<and> VariantMap_add E s v reg = Some (if s \<in> dom reg then reg else reg(s \<mapsto> v'))"
proof -
  obtain v' where c: "conclude E v = Some v'"
    using conclude_total [OF assms] by blast
  then have "VariantMap_add E s v reg = Some (if s \<in> dom reg then reg else reg(s \<mapsto> v'))"
    by (auto simp: VariantMap_add_def std_map_insert_def split: option.splits)
  with c show ?thesis
    by blast
qed

theorem C1_witness:
  "\<exists>v'. conclude sample_env sample_variant = Some v'
        \<and> VariantMap_add sample_env ''chess'' sample_variant Map.empty = Some [''chess'' \<mapsto> v']
        \<and> VariantMap_add sample_env ''chess'' palace_variant [''chess'' \<mapsto> v']
            = Some [''chess'' \<mapsto> v']"
proof -
  have sq: "0 < SQUARE_NB sample_env"
    by (simp add: sample_env_def)
  obtain v' where v': "conclude sample_env sample_variant = Some v'"
    and a: "VariantMap_add sample_env ''chess'' sample_variant Map.empty
             = Some (if ''chess'' \<in> dom (Map.empty :: Registry) then Map.empty
                     else [''chess'' \<mapsto> v'])"
    using C1_add_keeps_earlier_entry [OF sq, of sample_variant "''chess''" Map.empty]
    by blast
  obtain w' where
    "VariantMap_add sample_env ''chess'' palace_variant [''chess'' \<mapsto> v']
             = Some (if ''chess'' \<in> dom [''chess'' \<mapsto> v'] then [''chess'' \<mapsto> v']
                     else [''chess'' \<mapsto> v'](''chess'' \<mapsto> w'))"
    using C1_add_keeps_earlier_entry [OF sq, of palace_variant "''chess''" "[''chess'' \<mapsto> v']"]
    by blast
  with v' a show ?thesis
    by simp
qed

text \<open>
  The claim as stated fails: after \<open>sample_variant\<close> is added under a name, adding
  \<open>palace_variant\<close> under the same name leaves the registry as it was, and the name
  still maps to the first ruleset, which is not the second one concluded.
\<close>

theorem C1_counterexample:
  "VariantMap_add sample_env ''chess'' sample_variant Map.empty \<noteq> None
   \<and> VariantMap_add sample_env ''chess'' palace_variant
        (the (VariantMap_add sample_env ''chess'' sample_variant Map.empty))
      = Some (the (VariantMap_add sample_env ''chess'' sample_variant Map.empty))
   \<and> the (VariantMap_add sample_env ''chess'' sample_variant Map.empty) ''chess''
      = conclude sample_env sample_variant
   \<and> conclude sample_env sample_variant \<noteq> conclude sample_env palace_variant"
proof -
  have sq: "0 < SQUARE_NB sample_env"
    by (simp add: sample_env_def)
  obtain v' where v': "conclude sample_env sample_variant = Some v'"
    using conclude_total [OF sq] by blast
  obtain w' where w': "conclude sample_env palace_variant = Some w'"
    using conclude_total [OF sq] by blast
  have "mobilityRegion v' = mobilityRegion sample_variant"
    "mobilityRegion w' = mobilityRegion palace_variant"
    using conclude_same_raw [OF v'] conclude_same_raw [OF w'] by (simp_all add: same_raw_def)
  moreover have "mobilityRegion palace_variant WHITE 6 \<noteq> mobilityRegion sample_variant WHITE 6"
    by (simp add: palace_variant_def sample_variant_def)
  ultimately have "v' \<noteq> w'"
    by auto
  with v' w' show ?thesis
    by (simp add: VariantMap_add_def std_map_insert_def)
qed

subsection \<open>C9: a section whose ruleset is too large for the board\<close>

lemma build_variant_cerr [simp]:
  "build_variant P DoCheck attribs (st\<lparr>cerr := x\<rparr>) = build_variant P DoCheck attribs st"
  by (simp add: build_variant_def)

text \<open>
  C9. For a section that is parsed (its name is not registered, and its template, if it
  names one, is), in either mode: when the built ruleset's \<^verbatim>\<open>maxFile\<close> or
  \<^verbatim>\<open>maxRank\<close> is above the maximum the registry is left as it was, and what is written
  to \<^verbatim>\<open>std::cerr\<close> is what a section within the bounds writes too (the line that
  announces the section in the checking mode, and the parser's own lines): the discard
  adds no diagnostic. When the extent is within the bounds the concluded ruleset is
  registered under the section's name.
\<close>

theorem C9_create_variant_bounds:
  assumes "0 < SQUARE_NB E"
    and "variants st (variant st) = None"
    and "variant_template st = [] \<or> variants st (variant_template st) \<noteq> None"
  shows "\<exists>st'. create_variant E P DoCheck attribs st = Some st'
           \<and> cerr st' = cerr st @ (if DoCheck then [''Parsing variant: '' @ variant st] else [])
                          @ snd (build_variant P DoCheck attribs st)
           \<and> (if maxFile (fst (build_variant P DoCheck attribs st)) \<le> FILE_MAX E
                 \<and> maxRank (fst (build_variant P DoCheck attribs st)) \<le> RANK_MAX E
              then variants st' = (variants st)
                     (variant st := conclude E (fst (build_variant P DoCheck attribs st)))
                   \<and> variants st' (variant st) \<noteq> None
                   \<and> varsToErase st' = varsToErase st @ (if DoCheck then [variant st] else [])
              else variants st' = variants st \<and> varsToErase st' = varsToErase st)"
proof -
  obtain v' where c: "conclude E (fst (build_variant P DoCheck attribs st)) = Some v'"
    using conclude_total [OF assms(1)] by blast
  show ?thesis
    using assms(2,3) c
    by (cases DoCheck)
       (auto simp: create_variant_def Let_def VariantMap_add_def std_map_insert_def)
qed

theorem C9_witness:
  "(\<exists>st'. create_variant sample_env sample_collab True [''maxFile'' \<mapsto> ''12'']
             (section_state ''D'' Map.empty) = Some st'
          \<and> variants st' = Map.empty \<and> varsToErase st' = []
          \<and> cerr st' = [''Parsing variant: D''])
   \<and> (\<exists>st'. create_variant sample_env sample_collab True [''maxFile'' \<mapsto> ''3'']
             (section_state ''D'' Map.empty) = Some st'
          \<and> variants st' ''D'' \<noteq> None \<and> varsToErase st' = [''D'']
          \<and> cerr st' = [''Parsing variant: D''])"
proof -
  have sq: "0 < SQUARE_NB sample_env"
    by (simp add: sample_env_def)
  have 1: "maxFile (fst (build_variant sample_collab True [''maxFile'' \<mapsto> ''12'']
             (section_state ''D'' Map.empty))) = 11"
    and 2: "maxFile (fst (build_variant sample_collab True [''maxFile'' \<mapsto> ''3'']
             (section_state ''D'' Map.empty))) = 2"
    and 3: "maxRank (fst (build_variant sample_collab True [''maxFile'' \<mapsto> ''3'']
             (section_state ''D'' Map.empty))) = 2"
    and 4: "snd (build_variant sample_collab True a (section_state ''D'' Map.empty)) = []" for a
    by (simp_all add: build_variant_def section_state_def sample_collab_def sample_apply_def
          decimal_def sample_variant_def)
  have env: "FILE_MAX sample_env = 7" "RANK_MAX sample_env = 7"
    by (simp_all add: sample_env_def)
  have st: "variants (section_state ''D'' Map.empty) = Map.empty"
    "variant (section_state ''D'' Map.empty) = ''D''"
    "variant_template (section_state ''D'' Map.empty) = []"
    "varsToErase (section_state ''D'' Map.empty) = []"
    "cerr (section_state ''D'' Map.empty) = []"
    by (simp_all add: section_state_def)
  have a: "\<exists>st'. create_variant sample_env sample_collab True [''maxFile'' \<mapsto> ''12'']
             (section_state ''D'' Map.empty) = Some st'
          \<and> variants st' = Map.empty \<and> varsToErase st' = []
          \<and> cerr st' = [''Parsing variant: D'']"
    using C9_create_variant_bounds [OF sq, of "section_state ''D'' Map.empty" sample_collab True
        "[''maxFile'' \<mapsto> ''12'']"]
    unfolding 1 4 env st by auto
  have b: "\<exists>st'. create_variant sample_env sample_collab True [''maxFile'' \<mapsto> ''3'']
             (section_state ''D'' Map.empty) = Some st'
          \<and> variants st' ''D'' \<noteq> None \<and> varsToErase st' = [''D'']
          \<and> cerr st' = [''Parsing variant: D'']"
    using C9_create_variant_bounds [OF sq, of "section_state ''D'' Map.empty" sample_collab True
        "[''maxFile'' \<mapsto> ''3'']"]
    unfolding 2 3 4 env st by auto
  from a b show ?thesis
    by blast
qed

subsection \<open>The registry along the loop over the sections\<close>

lemma fold_erase_apply:
  "fold (\<lambda>tempVar reg. reg(tempVar := None)) xs m k = (if k \<in> set xs then None else m k)"
  by (induction xs arbitrary: m) auto

lemma erase_temporaries_variants:
  "variants (erase_temporaries st) k = (if k \<in> set (varsToErase st) then None else variants st k)"
  by (simp add: erase_temporaries_def fold_erase_apply)

lemma parse_header_registry:
  "variants (parse_header st) = variants st" "varsToErase (parse_header st) = varsToErase st"
  by (simp_all add: parse_header_def split_beta)

lemma store_attribute_registry:
  "variants (fst (store_attribute DoCheck ss (st, attribs))) = variants st"
  "varsToErase (fst (store_attribute DoCheck ss (st, attribs))) = varsToErase st"
  by (simp_all add: store_attribute_def Let_def split_beta)

lemma read_attribute_registry:
  "variants (fst (read_attribute DoCheck (st, attribs))) = variants st"
  "varsToErase (fst (read_attribute DoCheck (st, attribs))) = varsToErase st"
  by (simp_all add: read_attribute_def Let_def split_beta store_attribute_registry)

lemma attribs_loop_registry:
  "variants (fst (attribs_loop DoCheck sa)) = variants (fst sa)
   \<and> varsToErase (fst (attribs_loop DoCheck sa)) = varsToErase (fst sa)"
proof (induction DoCheck sa rule: attribs_loop.induct)
  case (1 DoCheck sa)
  obtain st attribs where sa: "sa = (st, attribs)"
    by (cases sa)
  let ?f1 = "snd (peek (file_stream st))"
  let ?g = "getline ?f1 (CHR 0x0A) (input st)"
  let ?st' = "st\<lparr>file_stream := fst ?g, input := snd ?g\<rparr>"
  show ?case
  proof (cases "fst (peek (file_stream st)) = Some (CHR ''['')")
    case True
    then show ?thesis
      by (simp add: sa attribs_loop_stop)
  next
    case False
    show ?thesis
    proof (cases "failbit (fst ?g)")
      case True
      with False show ?thesis
        by (simp add: sa attribs_loop_end)
    next
      case ok: False
      have "variants (fst (attribs_loop DoCheck (read_attribute DoCheck (?st', attribs))))
              = variants (fst (read_attribute DoCheck (?st', attribs)))
            \<and> varsToErase (fst (attribs_loop DoCheck (read_attribute DoCheck (?st', attribs))))
              = varsToErase (fst (read_attribute DoCheck (?st', attribs)))"
        using False ok
        by (intro 1 [OF sa [symmetric], of "fst (peek (file_stream st))" ?f1 "fst ?g" "snd ?g"])
           simp_all
      with False ok show ?thesis
        by (simp add: sa attribs_loop_step read_attribute_registry)
    qed
  qed
qed

lemma next_section_registry:
  "variants (fst (next_section st)) = variants st"
  "varsToErase (fst (next_section st)) = varsToErase st"
  by (simp_all add: next_section_def split_beta)

lemma create_variant_total:
  "0 < SQUARE_NB E \<Longrightarrow> \<exists>st'. create_variant E P DoCheck attribs st = Some st'"
  using conclude_total [of E "fst (build_variant P DoCheck attribs st)"]
  by (cases DoCheck) (auto simp: create_variant_def Let_def VariantMap_add_def)

lemma create_variant_cases:
  assumes "create_variant E P DoCheck attribs st = Some st'"
  obtains (kept) "variants st' = variants st" "varsToErase st' = varsToErase st"
  | (added) v' where "variants st (variant st) = None"
      "variants st' = (variants st)(variant st \<mapsto> v')"
      "varsToErase st' = varsToErase st @ (if DoCheck then [variant st] else [])"
proof (cases "variants st (variant st) = None
    \<and> \<not> (variant_template st \<noteq> [] \<and> variants st (variant_template st) = None)
    \<and> maxFile (fst (build_variant P DoCheck attribs st)) \<le> FILE_MAX E
    \<and> maxRank (fst (build_variant P DoCheck attribs st)) \<le> RANK_MAX E")
  case False
  with assms have "variants st' = variants st \<and> varsToErase st' = varsToErase st"
    by (cases DoCheck) (auto simp: create_variant_def Let_def split: if_splits)
  then show ?thesis
    by (intro kept) simp_all
next
  case True
  with assms obtain v' where "conclude E (fst (build_variant P DoCheck attribs st)) = Some v'"
    by (cases DoCheck)
       (auto simp: create_variant_def Let_def VariantMap_add_def split: option.splits)
  with True assms have "variants st' = (variants st)(variant st \<mapsto> v')
      \<and> varsToErase st' = varsToErase st @ (if DoCheck then [variant st] else [])"
    by (cases DoCheck)
       (auto simp: create_variant_def Let_def VariantMap_add_def std_map_insert_def)
  with True show ?thesis
    by (intro added [of v']) simp_all
qed

lemma create_variant_strict:
  assumes "create_variant E P True attribs st = Some st'"
  shows "variants (erase_temporaries st') = variants (erase_temporaries st)"
  using assms
proof (cases rule: create_variant_cases)
  case kept
  then show ?thesis
    by (simp add: erase_temporaries_def)
next
  case (added v')
  then show ?thesis
    by (auto simp: erase_temporaries_variants fun_eq_iff)
qed

lemma create_variant_grows:
  assumes "create_variant E P DoCheck attribs st = Some st'"
  shows "variants st \<subseteq>\<^sub>m variants st'"
    and "dom (variants st') - set (varsToErase st') \<subseteq> dom (variants st) - set (varsToErase st)
         \<or> \<not> DoCheck"
    and "\<not> DoCheck \<Longrightarrow> varsToErase st' = varsToErase st"
    and "set (varsToErase st) \<subseteq> set (varsToErase st')"
    and "set (varsToErase st') - set (varsToErase st) \<subseteq> dom (variants st')"
  using assms
  by (cases rule: create_variant_cases; auto simp: map_le_def)+

lemma erase_temporaries_cong:
  "variants a = variants b \<Longrightarrow> varsToErase a = varsToErase b \<Longrightarrow>
     variants (erase_temporaries a) = variants (erase_temporaries b)"
  by (simp add: erase_temporaries_def)

lemma section_body_total:
  "0 < SQUARE_NB E \<Longrightarrow> \<exists>st'. section_body E P DoCheck st = Some st'"
  by (simp add: section_body_def split_beta create_variant_total)

text \<open>One section: from the state before the condition of line 306 to the state after
  the body.\<close>

lemma section_step:
  assumes "next_section st = (st1, entered)" and "section_body E P DoCheck st1 = Some st3"
  shows "variants st \<subseteq>\<^sub>m variants st3"
    and "set (varsToErase st) \<subseteq> set (varsToErase st3)"
    and "DoCheck \<Longrightarrow> variants (erase_temporaries st3) = variants (erase_temporaries st)"
    and "\<not> DoCheck \<Longrightarrow> varsToErase st3 = varsToErase st"
    and "set (varsToErase st3) \<subseteq> set (varsToErase st) \<union> dom (variants st3)"
proof -
  obtain st2 attribs
    where a: "attribs_loop DoCheck (parse_header st1, Map.empty) = (st2, attribs)"
    by (cases "attribs_loop DoCheck (parse_header st1, Map.empty)")
  with assms(2) have c: "create_variant E P DoCheck attribs st2 = Some st3"
    by (simp add: section_body_def)
  have "variants st1 = variants st" "varsToErase st1 = varsToErase st"
    using next_section_registry [of st] assms(1) by simp_all
  moreover have "variants st2 = variants (parse_header st1)"
    "varsToErase st2 = varsToErase (parse_header st1)"
    using attribs_loop_registry [of DoCheck "(parse_header st1, Map.empty)"] a by simp_all
  ultimately have r: "variants st2 = variants st" "varsToErase st2 = varsToErase st"
    by (simp_all add: parse_header_registry)
  show "variants st \<subseteq>\<^sub>m variants st3"
    using create_variant_grows(1) [OF c] r by simp
  show "set (varsToErase st) \<subseteq> set (varsToErase st3)"
    using create_variant_grows(4) [OF c] r by simp
  show "varsToErase st3 = varsToErase st" if "\<not> DoCheck"
    using create_variant_grows(3) [OF c that] r by simp
  show "set (varsToErase st3) \<subseteq> set (varsToErase st) \<union> dom (variants st3)"
    using create_variant_grows(5) [OF c] r by auto
  show "variants (erase_temporaries st3) = variants (erase_temporaries st)" if DoCheck
  proof -
    from c that have "variants (erase_temporaries st3) = variants (erase_temporaries st2)"
      by (intro create_variant_strict) simp
    also have "\<dots> = variants (erase_temporaries st)"
      by (rule erase_temporaries_cong) (simp_all add: r)
    finally show ?thesis .
  qed
qed

lemma sections_loop_exit:
  "snd (next_section st) = False \<Longrightarrow>
     sections_loop E P DoCheck st = Some (fst (next_section st))"
  by (subst sections_loop.simps) (simp add: split_beta)

lemma sections_loop_enter:
  "snd (next_section st) = True \<Longrightarrow>
     sections_loop E P DoCheck st =
       (case section_body E P DoCheck (fst (next_section st)) of
          None \<Rightarrow> None
        | Some st3 \<Rightarrow> sections_loop E P DoCheck st3)"
  by (subst sections_loop.simps) (simp add: split_beta)

lemma sections_loop_total:
  "0 < SQUARE_NB E \<Longrightarrow> \<exists>st'. sections_loop E P DoCheck st = Some st'"
proof (induction E P DoCheck st rule: sections_loop.induct)
  case (1 E P DoCheck st)
  show ?case
  proof (cases "snd (next_section st)")
    case False
    then show ?thesis
      by (simp add: sections_loop_exit)
  next
    case True
    obtain st3 where b: "section_body E P DoCheck (fst (next_section st)) = Some st3"
      using section_body_total [OF "1.prems"] by blast
    have "(fst (next_section st), True) = next_section st"
      using True by (cases "next_section st") simp
    from "1.IH" [OF this _ b "1.prems"] True b
    show ?thesis
      by (simp add: sections_loop_enter)
  qed
qed

lemma sections_loop_result:
  "sections_loop E P DoCheck st = Some st' \<Longrightarrow>
     variants st \<subseteq>\<^sub>m variants st' \<and>
     set (varsToErase st) \<subseteq> set (varsToErase st') \<and>
     (DoCheck \<longrightarrow> variants (erase_temporaries st') = variants (erase_temporaries st)) \<and>
     (\<not> DoCheck \<longrightarrow> varsToErase st' = varsToErase st) \<and>
     set (varsToErase st') \<subseteq> set (varsToErase st) \<union> dom (variants st')"
proof (induction E P DoCheck st rule: sections_loop.induct)
  case (1 E P DoCheck st)
  obtain st1 entered where n: "next_section st = (st1, entered)"
    by (cases "next_section st")
  have r: "variants st1 = variants st" "varsToErase st1 = varsToErase st"
    using next_section_registry [of st] n by simp_all
  show ?case
  proof (cases entered)
    case False
    with n "1.prems" have "st' = st1"
      by (simp add: sections_loop_exit)
    with r show ?thesis
      by (simp add: erase_temporaries_def)
  next
    case True
    with n "1.prems" obtain st3
      where b: "section_body E P DoCheck st1 = Some st3"
        and l: "sections_loop E P DoCheck st3 = Some st'"
      by (auto simp: sections_loop_enter split: option.splits)
    note s = section_step [OF n b]
    have ih: "variants st3 \<subseteq>\<^sub>m variants st'"
      "set (varsToErase st3) \<subseteq> set (varsToErase st')"
      "DoCheck \<longrightarrow> variants (erase_temporaries st') = variants (erase_temporaries st3)"
      "\<not> DoCheck \<longrightarrow> varsToErase st' = varsToErase st3"
      "set (varsToErase st') \<subseteq> set (varsToErase st3) \<union> dom (variants st')"
      using "1.IH" [OF n [symmetric] True b l] by simp_all
    have "variants st \<subseteq>\<^sub>m variants st'"
      using s(1) ih(1) by (rule map_le_trans)
    moreover have "set (varsToErase st) \<subseteq> set (varsToErase st')"
      using s(2) ih(2) by (rule subset_trans)
    moreover have "DoCheck \<longrightarrow>
        variants (erase_temporaries st') = variants (erase_temporaries st)"
      using s(3) ih(3) by simp
    moreover have "\<not> DoCheck \<longrightarrow> varsToErase st' = varsToErase st"
      using s(4) ih(4) by simp
    moreover have "set (varsToErase st') \<subseteq> set (varsToErase st) \<union> dom (variants st')"
      using s(5) ih(5) map_le_implies_dom_le [OF ih(1)] by blast
    ultimately show ?thesis
      by simp
  qed
qed

subsection \<open>The two modes read the same stream the same way\<close>

text \<open>Two states of the pass that differ at most in what was written to \<^verbatim>\<open>std::cerr\<close>
  and in \<^verbatim>\<open>varsToErase\<close>.\<close>

definition same_pass :: "pstate \<Rightarrow> pstate \<Rightarrow> bool" where
  "same_pass a b \<longleftrightarrow>
     file_stream a = file_stream b \<and> variant a = variant b \<and>
     variant_template a = variant_template b \<and> key a = key b \<and>
     value_str a = value_str b \<and> input a = input b \<and> variants a = variants b"

lemma next_section_same_pass:
  "same_pass a b \<Longrightarrow>
     same_pass (fst (next_section a)) (fst (next_section b)) \<and>
     snd (next_section a) = snd (next_section b)"
  by (simp add: same_pass_def next_section_def split_beta)

lemma parse_header_same_pass:
  "same_pass a b \<Longrightarrow> same_pass (parse_header a) (parse_header b)"
  by (simp add: same_pass_def parse_header_def split_beta)

lemma store_attribute_same_pass:
  "same_pass a b \<Longrightarrow>
     same_pass (fst (store_attribute d1 ss (a, x))) (fst (store_attribute d2 ss (b, x))) \<and>
     snd (store_attribute d1 ss (a, x)) = snd (store_attribute d2 ss (b, x))"
  by (simp add: same_pass_def store_attribute_def Let_def split_beta)

text \<open>Lines 316 and 317 on their own.\<close>

definition drop_carriage_return :: "pstate \<Rightarrow> pstate" where
  "drop_carriage_return st =
     (if input st \<noteq> [] \<and> last (input st) = CHR 0x0D
      then st\<lparr>input := butlast (input st)\<rparr> else st)"

lemma read_attribute_unfold:
  "read_attribute d (st, x) =
     (if fst (peek (stringstream (input (drop_carriage_return st)))) = Some (CHR '';'') \<or>
         fst (peek (snd (peek (stringstream (input (drop_carriage_return st))))))
           = Some (CHR ''#'')
      then (drop_carriage_return st, x)
      else store_attribute d (snd (peek (snd (peek (stringstream
             (input (drop_carriage_return st)))))))
             (drop_carriage_return st, x))"
  by (simp add: read_attribute_def drop_carriage_return_def Let_def split_beta)

lemma read_attribute_same_pass:
  assumes "same_pass a b"
  shows "same_pass (fst (read_attribute d1 (a, x))) (fst (read_attribute d2 (b, x))) \<and>
     snd (read_attribute d1 (a, x)) = snd (read_attribute d2 (b, x))"
proof -
  have s: "same_pass (drop_carriage_return a) (drop_carriage_return b)"
    using assms by (simp add: same_pass_def drop_carriage_return_def)
  then have i: "input (drop_carriage_return a) = input (drop_carriage_return b)"
    by (simp add: same_pass_def)
  show ?thesis
    unfolding read_attribute_unfold i
    using s store_attribute_same_pass [OF s] by simp
qed

lemma attribs_loop_same_pass:
  "same_pass a b \<Longrightarrow>
     same_pass (fst (attribs_loop d1 (a, x))) (fst (attribs_loop d2 (b, x))) \<and>
     snd (attribs_loop d1 (a, x)) = snd (attribs_loop d2 (b, x))"
proof (induction "length (buf (file_stream a))" arbitrary: a b x rule: less_induct)
  case less
  from less.prems have f: "file_stream b = file_stream a" and i: "input b = input a"
    by (simp_all add: same_pass_def)
  let ?f1 = "snd (peek (file_stream a))"
  let ?g = "getline ?f1 (CHR 0x0A) (input a)"
  show ?case
  proof (cases "fst (peek (file_stream a)) = Some (CHR ''['')")
    case True
    then show ?thesis
      using less.prems by (simp add: attribs_loop_stop f) (simp add: same_pass_def)
  next
    case False
    show ?thesis
    proof (cases "failbit (fst ?g)")
      case True
      with False show ?thesis
        using less.prems by (simp add: attribs_loop_end f i) (simp add: same_pass_def)
    next
      case ok: False
      let ?a = "a\<lparr>file_stream := fst ?g, input := snd ?g\<rparr>"
      let ?b = "b\<lparr>file_stream := fst ?g, input := snd ?g\<rparr>"
      have s: "same_pass ?a ?b"
        using less.prems by (simp add: same_pass_def)
      note r = read_attribute_same_pass [OF s, of d1 x d2]
      obtain a' xa where ra: "read_attribute d1 (?a, x) = (a', xa)"
        by (cases "read_attribute d1 (?a, x)")
      obtain b' xb where rb: "read_attribute d2 (?b, x) = (b', xb)"
        by (cases "read_attribute d2 (?b, x)")
      from r ra rb have s': "same_pass a' b'" and xx: "xb = xa"
        by simp_all
      have "file_stream a' = fst ?g"
        using read_attribute_file_stream [of d1 ?a x] ra by simp
      then have "length (buf (file_stream a')) < length (buf (file_stream a))"
        using getline_buf_less [OF ok] by (simp add: peek_buf)
      from less.hyps [OF this s', of xa] False ok ra rb xx
      show ?thesis
        by (simp add: attribs_loop_step f i)
    qed
  qed
qed

text \<open>The hypothesis on the collaborator: the ruleset it builds does not depend on the
  mode (the mode only adds diagnostics).\<close>

definition mode_independent :: "Collab \<Rightarrow> bool" where
  "mode_independent P \<longleftrightarrow>
     (\<forall>attribs. fst (parse_default P True attribs) = fst (parse_default P False attribs)) \<and>
     (\<forall>attribs v. fst (parse_template P True attribs v)
                    = fst (parse_template P False attribs v))"

lemma build_variant_mode:
  "mode_independent P \<Longrightarrow> same_pass a b \<Longrightarrow>
     fst (build_variant P True x a) = fst (build_variant P False x b)"
  by (simp add: build_variant_def mode_independent_def same_pass_def)

lemma create_variant_same_pass:
  assumes "mode_independent P" and "same_pass a b"
    and "create_variant E P True x a = Some a'"
    and "create_variant E P False x b = Some b'"
  shows "same_pass a' b'"
proof -
  note bv = build_variant_mode [OF assms(1,2), of x]
  from assms(2) have e: "variants b = variants a" "variant b = variant a"
    "variant_template b = variant_template a"
    by (simp_all add: same_pass_def)
  show ?thesis
    using assms(2,3,4) bv
    by (auto simp: create_variant_def Let_def e same_pass_def
        split: if_splits option.splits)
qed

lemma section_body_same_pass:
  assumes "mode_independent P" and "same_pass a b"
    and "section_body E P True a = Some a'"
    and "section_body E P False b = Some b'"
  shows "same_pass a' b'"
proof -
  obtain a2 xa where la: "attribs_loop True (parse_header a, Map.empty) = (a2, xa)"
    by (cases "attribs_loop True (parse_header a, Map.empty)")
  obtain b2 xb where lb: "attribs_loop False (parse_header b, Map.empty) = (b2, xb)"
    by (cases "attribs_loop False (parse_header b, Map.empty)")
  from attribs_loop_same_pass [OF parse_header_same_pass [OF assms(2)], of True Map.empty False]
    la lb
  have s: "same_pass a2 b2" and x: "xb = xa"
    by simp_all
  from assms(3) la have "create_variant E P True xa a2 = Some a'"
    by (simp add: section_body_def)
  moreover from assms(4) lb x have "create_variant E P False xa b2 = Some b'"
    by (simp add: section_body_def)
  ultimately show ?thesis
    using create_variant_same_pass [OF assms(1) s] by blast
qed

lemma sections_loop_same_pass:
  assumes "mode_independent P"
  shows "same_pass a b \<Longrightarrow> sections_loop E P True a = Some a' \<Longrightarrow>
     sections_loop E P False b = Some b' \<Longrightarrow> same_pass a' b'"
proof (induction "length (buf (file_stream a))" arbitrary: a b rule: less_induct)
  case less
  note n = next_section_same_pass [OF less.prems(1)]
  show ?case
  proof (cases "snd (next_section a)")
    case False
    with n less.prems(2,3) show ?thesis
      by (simp add: sections_loop_exit)
  next
    case True
    with n have Tb: "snd (next_section b)"
      by simp
    from True less.prems(2) obtain a3
      where ba: "section_body E P True (fst (next_section a)) = Some a3"
        and la: "sections_loop E P True a3 = Some a'"
      by (auto simp: sections_loop_enter split: option.splits)
    from Tb less.prems(3) obtain b3
      where bb: "section_body E P False (fst (next_section b)) = Some b3"
        and lb: "sections_loop E P False b3 = Some b'"
      by (auto simp: sections_loop_enter split: option.splits)
    have s: "same_pass a3 b3"
      using section_body_same_pass [OF assms _ ba bb] n by simp
    have "(fst (next_section a), True) = next_section a"
      using True by (cases "next_section a") simp
    from sections_loop_decrease [OF this _ ba]
    have "length (buf (file_stream a3)) < length (buf (file_stream a))"
      by simp
    from less.hyps [OF this s la lb] show ?thesis .
  qed
qed

subsection \<open>The registry after a pass over a stream\<close>

lemma parse_sections_total:
  "0 < SQUARE_NB E \<Longrightarrow> \<exists>st. parse_sections E P DoCheck f reg = Some st"
  by (simp add: parse_sections_def split_beta sections_loop_total)

lemma parse_sections_result:
  assumes "parse_sections E P DoCheck f reg = Some st"
  shows "reg \<subseteq>\<^sub>m variants st"
    and "DoCheck \<Longrightarrow> variants (erase_temporaries st) = reg"
    and "\<not> DoCheck \<Longrightarrow> varsToErase st = []"
    and "set (varsToErase st) \<subseteq> dom (variants st)"
proof -
  let ?st = "\<lparr>file_stream = fst (skip_preamble (f, [])), variant = [], variant_template = [],
     key = [], value_str = [], input = snd (skip_preamble (f, [])), variants = reg,
     varsToErase = [], cerr = []\<rparr>"
  from assms have "sections_loop E P DoCheck ?st = Some st"
    by (simp add: parse_sections_def split_beta)
  note r = sections_loop_result [OF this]
  from r show "reg \<subseteq>\<^sub>m variants st"
    by simp
  from r show "variants (erase_temporaries st) = reg" if DoCheck
    using that by (simp add: erase_temporaries_def)
  from r show "varsToErase st = []" if "\<not> DoCheck"
    using that by simp
  from r show "set (varsToErase st) \<subseteq> dom (variants st)"
    by simp
qed

lemma parse_sections_same_pass:
  assumes "mode_independent P"
    and "parse_sections E P True f reg = Some a" and "parse_sections E P False f reg = Some b"
  shows "variants a = variants b"
proof -
  let ?st = "\<lparr>file_stream = fst (skip_preamble (f, [])), variant = [], variant_template = [],
     key = [], value_str = [], input = snd (skip_preamble (f, [])), variants = reg,
     varsToErase = [], cerr = []\<rparr>"
  have "same_pass ?st ?st"
    by (simp add: same_pass_def)
  from sections_loop_same_pass [OF assms(1) this, of E a b] assms(2,3)
  show ?thesis
    by (simp add: parse_sections_def split_beta same_pass_def)
qed

lemma strict_temporaries:
  assumes "parse_sections E P True f reg = Some st"
  shows "set (varsToErase st) = dom (variants st) - dom reg"
proof -
  note r = parse_sections_result [OF assms]
  have "dom reg = dom (variants st) - set (varsToErase st)"
    unfolding r(2) [OF TrueI, symmetric]
    by (auto simp: erase_temporaries_variants split: if_splits)
  with r(4) show ?thesis
    by blast
qed

subsection \<open>C2: the registry after a checking pass and after a normal pass\<close>

lemma parse_sections_start:
  "parse_sections E P DoCheck f reg = sections_loop E P DoCheck (pass_start f reg)"
  by (simp add: parse_sections_def pass_start_def split_beta)

lemma pass_start_registry:
  "variants (pass_start f reg) = reg" "varsToErase (pass_start f reg) = []"
  by (simp_all add: pass_start_def split_beta)

lemma loop_head_loop:
  "loop_head E P DoCheck st0 st \<Longrightarrow>
     sections_loop E P DoCheck st = sections_loop E P DoCheck st0"
proof (induction rule: loop_head.induct)
  case first
  show ?case ..
next
  case (later st st1 st3)
  then show ?case
    by (simp add: sections_loop_enter)
qed

text \<open>What lines 329 to 349 do with a section that is parsed successfully.\<close>

lemma create_variant_registers:
  assumes "variants st (variant st) = None"
    and "variant_template st = [] \<or> variants st (variant_template st) \<noteq> None"
    and "maxFile (fst (build_variant P DoCheck attribs st)) \<le> FILE_MAX E"
    and "maxRank (fst (build_variant P DoCheck attribs st)) \<le> RANK_MAX E"
    and "conclude E (fst (build_variant P DoCheck attribs st)) = Some v'"
  shows "create_variant E P DoCheck attribs st =
           Some (st\<lparr>cerr := cerr st @ (if DoCheck then [''Parsing variant: '' @ variant st] else [])
                                @ snd (build_variant P DoCheck attribs st),
                    variants := (variants st)(variant st \<mapsto> v'),
                    varsToErase := varsToErase st @ (if DoCheck then [variant st] else [])\<rparr>)"
  using assms
  by (cases DoCheck)
     (auto simp: create_variant_def Let_def VariantMap_add_def std_map_insert_def)

lemma parsed_section_registered:
  assumes "parsed_section E P DoCheck st = Some (name, u)" and "0 < SQUARE_NB E"
  shows "\<exists>st1 st3. next_section st = (st1, True) \<and> section_body E P DoCheck st1 = Some st3
           \<and> variants st3 name = conclude E u \<and> variants st3 name \<noteq> None
           \<and> (DoCheck \<longrightarrow> name \<in> set (varsToErase st3))"
proof -
  obtain st1 entered where n: "next_section st = (st1, entered)"
    by (cases "next_section st")
  obtain st2 attribs
    where a: "attribs_loop DoCheck (parse_header st1, Map.empty) = (st2, attribs)"
    by (cases "attribs_loop DoCheck (parse_header st1, Map.empty)")
  from assms(1) n a have e: entered
    and 1: "variants st2 (variant st2) = None"
    and 2: "variant_template st2 = [] \<or> variants st2 (variant_template st2) \<noteq> None"
    and 3: "maxFile (fst (build_variant P DoCheck attribs st2)) \<le> FILE_MAX E"
      "maxRank (fst (build_variant P DoCheck attribs st2)) \<le> RANK_MAX E"
    and 4: "name = variant st2" "u = fst (build_variant P DoCheck attribs st2)"
    by (auto simp: parsed_section_def Let_def split: if_splits)
  obtain v' where c: "conclude E (fst (build_variant P DoCheck attribs st2)) = Some v'"
    using conclude_total [OF assms(2)] by blast
  note r = create_variant_registers [OF 1 2 3 c]
  have "section_body E P DoCheck st1 = create_variant E P DoCheck attribs st2"
    by (simp add: section_body_def a)
  with r n e 4 c show ?thesis
    by simp
qed

lemma parsed_section_kept:
  assumes "loop_head E P DoCheck st0 st"
    and "parsed_section E P DoCheck st = Some (name, u)"
    and "sections_loop E P DoCheck st0 = Some st'"
    and "0 < SQUARE_NB E"
  shows "variants st' name = conclude E u" and "variants st' name \<noteq> None"
    and "DoCheck \<Longrightarrow> name \<in> set (varsToErase st')"
proof -
  from parsed_section_registered [OF assms(2,4)] obtain st1 st3
    where n: "next_section st = (st1, True)"
      and b: "section_body E P DoCheck st1 = Some st3"
      and v: "variants st3 name = conclude E u" "variants st3 name \<noteq> None"
      and e: "DoCheck \<longrightarrow> name \<in> set (varsToErase st3)"
    by blast
  have "loop_head E P DoCheck st0 st3"
    using assms(1) n b by (rule loop_head.later)
  then have "sections_loop E P DoCheck st3 = Some st'"
    using assms(3) by (simp add: loop_head_loop)
  note r = sections_loop_result [OF this]
  from v(2) obtain w where w: "variants st3 name = Some w"
    by blast
  with r have "variants st' name = Some w"
    by (auto simp: map_le_def dom_def)
  with v w show "variants st' name = conclude E u" "variants st' name \<noteq> None"
    by simp_all
  show "name \<in> set (varsToErase st')" if DoCheck
    using that e r by blast
qed

text \<open>The pass over the stream of two sections, in the normal mode.\<close>

lemmas stream_defs = stringstream_def peek_def get_def getline_def ws_def good_def

lemma skip_preamble_stop:
  "fst (peek f) = Some (CHR ''['') \<Longrightarrow> skip_preamble (f, inp) = (snd (peek f), inp)"
  by (subst skip_preamble.simps) (simp add: split_beta)

lemma two_sections_start:
  "pass_start (stringstream two_sections) reg =
     \<lparr>file_stream = stringstream two_sections, variant = [], variant_template = [], key = [],
      value_str = [], input = [], variants = reg, varsToErase = [], cerr = []\<rparr>"
  by (simp add: pass_start_def skip_preamble_stop two_sections_def stream_defs)

lemma two_sections_A:
  "parsed_section sample_env sample_collab False (pass_start (stringstream two_sections) Map.empty)
     = Some (''A'', sample_variant\<lparr>maxFile := 2\<rparr>)"
  unfolding two_sections_start
  apply (simp add: parsed_section_def next_section_def two_sections_def stream_defs
        parse_header_def attribs_loop_step attribs_loop_stop attribs_loop_end
        read_attribute_def store_attribute_def Let_def erase_trailing_spaces_def isspace_def
        build_variant_def sample_collab_def sample_apply_def decimal_def)
  apply (simp add: sample_env_def sample_variant_def)
  done

lemmas parse_defs = next_section_def parse_header_def attribs_loop_step attribs_loop_stop
  attribs_loop_end read_attribute_def store_attribute_def Let_def erase_trailing_spaces_def
  isspace_def build_variant_def

lemma sample_bounds:
  "FILE_MAX sample_env = 7" "RANK_MAX sample_env = 7" "maxRank sample_variant = 2"
  by (simp_all add: sample_env_def sample_variant_def)

lemma two_sections_after_A:
  assumes "conclude sample_env (sample_variant\<lparr>maxFile := 2\<rparr>) = Some vA"
  shows "\<exists>st1. next_section (pass_start (stringstream two_sections) Map.empty) = (st1, True)
           \<and> section_body sample_env sample_collab False st1 =
               Some \<lparr>file_stream = stringstream (''[B:A]'' @ [CHR 0x0A] @ ''mustDrop = true''
                                                 @ [CHR 0x0A]),
                     variant = ''A'', variant_template = [], key = ''maxFile'',
                     value_str = ''3'', input = ''maxFile = 3'',
                     variants = [''A'' \<mapsto> vA], varsToErase = [], cerr = []\<rparr>"
  unfolding two_sections_start
  using assms
  by (simp add: section_body_def two_sections_def stream_defs parse_defs
        sample_collab_def sample_apply_def decimal_def create_variant_def VariantMap_add_def
        std_map_insert_def sample_bounds)

lemma two_sections_B:
  assumes "maxFile vA = 2" and "maxRank vA = 2"
  shows "parsed_section sample_env sample_collab False
           \<lparr>file_stream = stringstream (''[B:A]'' @ [CHR 0x0A] @ ''mustDrop = true''
                                             @ [CHR 0x0A]),
            variant = ''A'', variant_template = [], key = ''maxFile'',
            value_str = ''3'', input = ''maxFile = 3'',
            variants = [''A'' \<mapsto> vA], varsToErase = [], cerr = []\<rparr>
         = Some (''B'', vA\<lparr>mustDrop := True\<rparr>)"
  using assms
  by (simp add: parsed_section_def stream_defs parse_defs sample_collab_def sample_apply_def
        sample_bounds)

text \<open>
  C2. For every stream \<open>f\<close> and registry \<open>reg\<close> (in a build with at least one square, so
  that \<^verbatim>\<open>conclude\<close> stays inside its table), \<^verbatim>\<open>parse_istream\<close> returns in both modes.
  In the checking mode every section that an iteration of the loop parses successfully
  is registered under its name with its concluded ruleset and its name is put in
  \<^verbatim>\<open>varsToErase\<close>; the names in \<^verbatim>\<open>varsToErase\<close> when the loop ends are exactly the names
  the pass registered, and the registry after the clean-up is \<open>reg\<close> itself: the same
  names, bound to the same rulesets. In the normal mode every section that an iteration
  parses successfully is, when the call returns, registered under its name with its
  concluded ruleset; \<^verbatim>\<open>varsToErase\<close> is empty, the registry after the call is the
  registry as the loop left it, and it extends \<open>reg\<close>. When the ruleset built by the
  parser of a section does not depend on the mode, the loop over the same stream leaves
  the same registry in both modes, so what the normal pass keeps is what the checking
  pass registered and erased.
\<close>

theorem C2_registry_after_pass:
  assumes "0 < SQUARE_NB E"
  shows "\<exists>stT stF.
           parse_sections E P True f reg = Some stT
         \<and> parse_sections E P False f reg = Some stF
         \<and> (\<forall>st name u. loop_head E P True (pass_start f reg) st
                \<and> parsed_section E P True st = Some (name, u) \<longrightarrow>
              variants stT name = conclude E u \<and> name \<in> set (varsToErase stT))
         \<and> set (varsToErase stT) = dom (variants stT) - dom reg
         \<and> parse_istream E P True f reg = Some (reg, cerr stT)
         \<and> (\<forall>st name u. loop_head E P False (pass_start f reg) st
                \<and> parsed_section E P False st = Some (name, u) \<longrightarrow>
              variants stF name = conclude E u \<and> variants stF name \<noteq> None)
         \<and> varsToErase stF = []
         \<and> parse_istream E P False f reg = Some (variants stF, cerr stF)
         \<and> reg \<subseteq>\<^sub>m variants stF
         \<and> (mode_independent P \<longrightarrow> variants stF = variants stT)"
proof -
  obtain stT where t: "parse_sections E P True f reg = Some stT"
    using parse_sections_total [OF assms] by blast
  obtain stF where f: "parse_sections E P False f reg = Some stF"
    using parse_sections_total [OF assms] by blast
  note rt = parse_sections_result [OF t]
  note rf = parse_sections_result [OF f]
  have lt: "sections_loop E P True (pass_start f reg) = Some stT"
    using t by (simp add: parse_sections_start)
  have lf: "sections_loop E P False (pass_start f reg) = Some stF"
    using f by (simp add: parse_sections_start)
  have kt: "\<forall>st name u. loop_head E P True (pass_start f reg) st
                \<and> parsed_section E P True st = Some (name, u) \<longrightarrow>
              variants stT name = conclude E u \<and> name \<in> set (varsToErase stT)"
    using parsed_section_kept(1,3) [OF _ _ lt assms] by blast
  have kf: "\<forall>st name u. loop_head E P False (pass_start f reg) st
                \<and> parsed_section E P False st = Some (name, u) \<longrightarrow>
              variants stF name = conclude E u \<and> variants stF name \<noteq> None"
    using parsed_section_kept(1,2) [OF _ _ lf assms] by blast
  have "parse_istream E P True f reg = Some (reg, cerr stT)"
    using t rt(2) by (simp add: parse_istream_def)
  moreover have e: "varsToErase stF = []"
    using rf(3) by simp
  moreover have "parse_istream E P False f reg = Some (variants stF, cerr stF)"
    using f e by (simp add: parse_istream_def erase_temporaries_def)
  moreover have "mode_independent P \<longrightarrow> variants stF = variants stT"
    using parse_sections_same_pass [OF _ t f] by simp
  ultimately show ?thesis
    using t f rf(1) strict_temporaries [OF t] kt kf by blast
qed

theorem C2_witness:
  "0 < SQUARE_NB sample_env \<and> mode_independent sample_collab \<and>
   (\<exists>stT stF.
      parse_sections sample_env sample_collab True (stringstream two_sections) Map.empty
        = Some stT
    \<and> parse_sections sample_env sample_collab False (stringstream two_sections) Map.empty
        = Some stF
    \<and> ''A'' \<in> set (varsToErase stT) \<and> ''B'' \<in> set (varsToErase stT)
    \<and> parse_istream sample_env sample_collab True (stringstream two_sections) Map.empty
        = Some (Map.empty, cerr stT)
    \<and> variants stF ''A'' \<noteq> None \<and> variants stF ''B'' \<noteq> None
    \<and> parse_istream sample_env sample_collab False (stringstream two_sections) Map.empty
        = Some (variants stF, cerr stF))"
proof -
  let ?E = sample_env and ?P = sample_collab and ?f = "stringstream two_sections"
  have sq: "0 < SQUARE_NB ?E"
    by (simp add: sample_env_def)
  have mi: "mode_independent ?P"
    by (simp add: mode_independent_def sample_collab_def)
  obtain vA where vA: "conclude ?E (sample_variant\<lparr>maxFile := 2\<rparr>) = Some vA"
    using conclude_total [OF sq] by blast
  have raw: "maxFile vA = 2" "maxRank vA = 2"
    using conclude_same_raw [OF vA] by (simp_all add: same_raw_def sample_bounds)
  from two_sections_after_A [OF vA] obtain st1 st3
    where n: "next_section (pass_start ?f Map.empty) = (st1, True)"
      and b: "section_body ?E ?P False st1 = Some st3"
      and B: "parsed_section ?E ?P False st3 = Some (''B'', vA\<lparr>mustDrop := True\<rparr>)"
    using two_sections_B [OF raw] by auto
  have h0: "loop_head ?E ?P False (pass_start ?f Map.empty) (pass_start ?f Map.empty)"
    by (rule loop_head.first)
  have h1: "loop_head ?E ?P False (pass_start ?f Map.empty) st3"
    using h0 n b by (rule loop_head.later)
  from C2_registry_after_pass [OF sq, of ?P ?f Map.empty] obtain stT stF
    where t: "parse_sections ?E ?P True ?f Map.empty = Some stT"
      and f: "parse_sections ?E ?P False ?f Map.empty = Some stF"
      and e: "set (varsToErase stT) = dom (variants stT) - dom (Map.empty :: Registry)"
      and rt: "parse_istream ?E ?P True ?f Map.empty = Some (Map.empty, cerr stT)"
      and k: "\<forall>st name u. loop_head ?E ?P False (pass_start ?f Map.empty) st
                \<and> parsed_section ?E ?P False st = Some (name, u) \<longrightarrow>
              variants stF name = conclude ?E u \<and> variants stF name \<noteq> None"
      and rf: "parse_istream ?E ?P False ?f Map.empty = Some (variants stF, cerr stF)"
      and m: "mode_independent ?P \<longrightarrow> variants stF = variants stT"
    by blast
  from k h0 two_sections_A have a: "variants stF ''A'' \<noteq> None"
    by blast
  from k h1 B have b': "variants stF ''B'' \<noteq> None"
    by blast
  from m mi have "variants stT = variants stF"
    by simp
  with e a b' have "''A'' \<in> set (varsToErase stT)" "''B'' \<in> set (varsToErase stT)"
    by auto
  with sq mi t f rt rf a b' show ?thesis
    by blast
qed

subsection \<open>Writes of fixed values at fixed places\<close>

text \<open>A transformation of a table that stores values at places, both fixed in advance,
  and leaves every other entry as it was; and the same for a pair of tables, each
  transformed on its own. Running such a transformation twice is running it once.\<close>

definition overwrites :: "(('a \<Rightarrow> 'b) \<Rightarrow> ('a \<Rightarrow> 'b)) \<Rightarrow> bool" where
  "overwrites G \<longleftrightarrow> (\<exists>g A. \<forall>t. G t = override_on t g A)"

definition overwrites_both ::
  "(('a \<Rightarrow> 'b) \<times> ('c \<Rightarrow> 'd) \<Rightarrow> ('a \<Rightarrow> 'b) \<times> ('c \<Rightarrow> 'd)) \<Rightarrow> bool" where
  "overwrites_both F \<longleftrightarrow>
     (\<exists>G1 G2. overwrites G1 \<and> overwrites G2 \<and> (\<forall>t1 t2. F (t1, t2) = (G1 t1, G2 t2)))"

lemma overwrites_id: "overwrites (\<lambda>t. t)"
  unfolding overwrites_def
  by (rule exI [of _ undefined], rule exI [of _ "{}"]) simp

lemma overwrites_upd:
  assumes "overwrites G"
  shows "overwrites (\<lambda>t. (G t)(a := x))"
proof -
  from assms obtain g A where G: "\<And>t. G t = override_on t g A"
    by (auto simp: overwrites_def)
  have "(G t)(a := x) = override_on t (g(a := x)) (insert a A)" for t
    by (auto simp: G override_on_def fun_eq_iff)
  then show ?thesis
    unfolding overwrites_def by blast
qed

lemma overwrites_comp:
  assumes "overwrites G" and "overwrites H"
  shows "overwrites (\<lambda>t. H (G t))"
proof -
  from assms(1) obtain g A where G: "\<And>t. G t = override_on t g A"
    by (auto simp: overwrites_def)
  from assms(2) obtain h B where H: "\<And>t. H t = override_on t h B"
    by (auto simp: overwrites_def)
  have "H (G t) = override_on t (override_on g h B) (A \<union> B)" for t
    by (auto simp: G H override_on_def fun_eq_iff)
  then show ?thesis
    unfolding overwrites_def by blast
qed

lemma overwrites_twice: "overwrites G \<Longrightarrow> G (G t) = G t"
  by (auto simp: overwrites_def override_on_def fun_eq_iff)

lemma overwrites_both_id: "overwrites_both (\<lambda>t. t)"
  unfolding overwrites_both_def
  by (rule exI [of _ "\<lambda>t. t"], rule exI [of _ "\<lambda>t. t"]) (simp add: overwrites_id)

lemma overwrites_both_comp:
  assumes "overwrites_both F" and "overwrites_both F'"
  shows "overwrites_both (\<lambda>t. F' (F t))"
proof -
  from assms(1) obtain G1 G2 where F: "overwrites G1" "overwrites G2"
    "\<And>t1 t2. F (t1, t2) = (G1 t1, G2 t2)"
    by (auto simp: overwrites_both_def)
  from assms(2) obtain H1 H2 where F': "overwrites H1" "overwrites H2"
    "\<And>t1 t2. F' (t1, t2) = (H1 t1, H2 t2)"
    by (auto simp: overwrites_both_def)
  have "overwrites (\<lambda>t. H1 (G1 t))" "overwrites (\<lambda>t. H2 (G2 t))"
    using F(1,2) F'(1,2) by (simp_all add: overwrites_comp)
  moreover have "F' (F (t1, t2)) = (H1 (G1 t1), H2 (G2 t2))" for t1 t2
    by (simp add: F(3) F'(3))
  ultimately show ?thesis
    unfolding overwrites_both_def by blast
qed

lemma overwrites_both_twice:
  assumes "overwrites_both F"
  shows "F (F t) = F t"
proof -
  from assms obtain G1 G2 where F: "overwrites G1" "overwrites G2"
    "\<And>t1 t2. F (t1, t2) = (G1 t1, G2 t2)"
    by (auto simp: overwrites_both_def)
  obtain t1 t2 where t: "t = (t1, t2)"
    by (cases t)
  show ?thesis
    by (simp add: t F(3) overwrites_twice [OF F(1)] overwrites_twice [OF F(2)])
qed

lemma index_writes_overwrites: "overwrites_both (index_writes E v pt i c)"
proof -
  let ?G1 = "\<lambda>psi :: Color \<times> Piece \<Rightarrow> int.
      psi((c, make_piece E c pt) := int32 (2 * i * nnueSquares v),
          (c, make_piece E (flip_color c) pt) :=
             int32 ((2 * i + (if pt \<noteq> nnueKing v then 1 else 0)) * nnueSquares v))"
  let ?G2 = "\<lambda>phi :: Color \<times> Piece \<Rightarrow> int.
      phi((c, make_piece E c pt) := int32 (2 * i * nnuePockets v + nnueNonDropPieceIndices v),
          (c, make_piece E (flip_color c) pt) :=
             int32 ((2 * i + 1) * nnuePockets v + nnueNonDropPieceIndices v))"
  have "overwrites ?G1" "overwrites ?G2"
    by (rule overwrites_upd [OF overwrites_upd [OF overwrites_id]])+
  moreover have "index_writes E v pt i c (t1, t2) = (?G1 t1, ?G2 t2)" for t1 t2
    by (simp add: index_writes_def Let_def)
  ultimately show ?thesis
    unfolding overwrites_both_def by blast
qed

lemma pieceIndex_loop_overwrites: "overwrites_both (pieceIndex_loop E v ps i)"
proof (induction "bitset_count ps" arbitrary: ps i rule: less_induct)
  case less
  show ?case
  proof (cases "ps = 0")
    case True
    then have "pieceIndex_loop E v ps i = (\<lambda>t. t)"
      by (simp add: fun_eq_iff pieceIndex_loop_stop)
    then show ?thesis
      by (simp add: overwrites_both_id)
  next
    case False
    define pt where "pt = lsb (if ps \<noteq> piece_set (nnueKing v)
                               then ps AND NOT (piece_set (nnueKing v)) else ps)"
    have "bit ps pt"
      unfolding pt_def using False by (rule lsb_skip_bit)
    then have "bitset_count (set_xor_type ps pt) < bitset_count ps"
      by (simp add: set_xor_type_unset_bit bitset_count_unset_bit)
    then have "overwrites_both (pieceIndex_loop E v (set_xor_type ps pt) (i + 1))"
      by (rule less)
    then have "overwrites_both (\<lambda>t. pieceIndex_loop E v (set_xor_type ps pt) (i + 1)
        (index_writes E v pt i BLACK (index_writes E v pt i WHITE t)))"
      by (rule overwrites_both_comp
            [OF overwrites_both_comp [OF index_writes_overwrites index_writes_overwrites]])
    moreover have "pieceIndex_loop E v ps i
        = (\<lambda>t. pieceIndex_loop E v (set_xor_type ps pt) (i + 1)
                 (index_writes E v pt i BLACK (index_writes E v pt i WHITE t)))"
      using False by (simp add: fun_eq_iff pieceIndex_loop_step Let_def pt_def)
    ultimately show ?thesis
      by simp
  qed
qed

lemma pieceIndex_loop_twice:
  "pieceIndex_loop E v ps i (pieceIndex_loop E v ps i tabs) = pieceIndex_loop E v ps i tabs"
  using pieceIndex_loop_overwrites by (rule overwrites_both_twice)

lemma kingSquare_table_twice:
  assumes "kingSquare_table E v = Some st"
  shows "kingSquare_table E (v\<lparr>kingSquareIndex := fst st\<rparr>) = Some st"
proof -
  let ?w = "v\<lparr>kingSquareIndex := fst st\<rparr>"
  have a: "king_square_available E ?w = king_square_available E v"
    by (simp add: king_square_available_def bitboardSquare_def fun_eq_iff)
  have w: "nnueKing ?w = nnueKing v" "nnueSquares ?w = nnueSquares v"
    "nnuePieceIndices ?w = nnuePieceIndices v" "king_squares E ?w = king_squares E v"
    "king_rank E ?w = king_rank E v" "kingSquareIndex ?w = fst st"
    by (simp_all add: sizes_defs king_squares_def king_squares_from_def king_rank_def
          a fun_eq_iff)
  show ?thesis
  proof (cases "0 < SQUARE_NB E")
    case True
    from assms show ?thesis
      unfolding kingSquare_table_result [OF True] w
      by (auto simp: fun_eq_iff split: if_splits)
  next
    case False
    show ?thesis
    proof (cases "nnueKing v \<noteq> 0 \<and> nnueSquares v \<le> SQUARE_NB E")
      case True
      with False have "\<not> 0 < nnueSquares v"
        by simp
      with True assms have "st = (kingSquareIndex v, 0)"
        by (simp add: kingSquare_table_def kingSquare_loop_stop)
      then have "?w = v"
        by simp
      with assms show ?thesis
        by simp
    next
      case no: False
      then have "kingSquare_table E v = None"
        using False by (auto simp: kingSquare_table_def write_kingSquareIndex_def)
      with assms show ?thesis
        by simp
    qed
  qed
qed

lemma Color_fun_eq: "f = g \<longleftrightarrow> f WHITE = g WHITE \<and> f BLACK = g BLACK"
proof
  assume "f WHITE = g WHITE \<and> f BLACK = g BLACK"
  then have "f c = g c" for c
    by (cases c) simp_all
  then show "f = g"
    by (simp add: fun_eq_iff)
qed simp

lemma enforce_doubleStep_twice:
  "doubleStep (enforce_doubleStep (enforce_doubleStep v)) = doubleStep (enforce_doubleStep v)"
  "doubleStepRegion (enforce_doubleStep (enforce_doubleStep v))
     = doubleStepRegion (enforce_doubleStep v)"
  by (simp_all add: enforce_doubleStep_def Let_def Color_fun_eq [of "\<lambda>c. 0"])

lemma enforce_doubleStep_cong:
  "doubleStep a = doubleStep b \<Longrightarrow> doubleStepRegion a = doubleStepRegion b \<Longrightarrow>
     doubleStep (enforce_doubleStep a) = doubleStep (enforce_doubleStep b) \<and>
     doubleStepRegion (enforce_doubleStep a) = doubleStepRegion (enforce_doubleStep b)"
  by (simp add: enforce_doubleStep_def Let_def)

subsection \<open>C3: a second run of \<^verbatim>\<open>conclude\<close>\<close>

text \<open>
  C3. \<^verbatim>\<open>conclude\<close> is idempotent: when a first run on a ruleset \<open>v\<close> returns \<open>v'\<close>, a
  second run on \<open>v'\<close>, with no field changed in between, returns too, and returns \<open>v'\<close>
  itself. So every derived field (\<^verbatim>\<open>fastAttacks\<close>, \<^verbatim>\<open>fastAttacks2\<close>, \<^verbatim>\<open>nnueKing\<close>,
  \<^verbatim>\<open>nnueUsePockets\<close>, \<^verbatim>\<open>pieceSquareIndex\<close>, \<^verbatim>\<open>pieceHandIndex\<close>, \<^verbatim>\<open>kingSquareIndex\<close>,
  \<^verbatim>\<open>nnueDimensions\<close>, \<^verbatim>\<open>nnueMaxPieces\<close>, \<^verbatim>\<open>endgameEval\<close>, \<^verbatim>\<open>shogiStylePromotions\<close>,
  \<^verbatim>\<open>connect_directions\<close>) keeps the value the first run gave it, and so do the double-step
  flag and regions, which the first run may have changed.
\<close>

theorem C3_conclude_idempotent:
  assumes "conclude E v = Some v'"
  shows "conclude E v' = Some v'"
proof -
  define w where "w = v\<lparr>nnueKing := nnueKing (set_nnueKing E v),
                        nnueUsePockets := nnueUsePockets_value v\<rparr>"
  define rm where "rm = restrictedMobility_loop v (pieceTypes v) False"
  from assms obtain st where st: "kingSquare_table E w = Some st"
    and f: "doubleStep v' = doubleStep (enforce_doubleStep v)"
      "doubleStepRegion v' = doubleStepRegion (enforce_doubleStep v)"
      "fastAttacks v' = fastAttacks (set_fastAttacks E rm v)"
      "fastAttacks2 v' = fastAttacks2 (set_fastAttacks E rm v)"
      "nnueKing v' = nnueKing (set_nnueKing E v)"
      "nnueUsePockets v' = nnueUsePockets_value v"
      "(pieceSquareIndex v', pieceHandIndex v')
         = pieceIndex_loop E w (pieceTypes v) 0 (pieceSquareIndex v, pieceHandIndex v)"
      "kingSquareIndex v' = fst st"
      "nnueDimensions v' = int32 (snd st * nnuePieceIndices w)"
      "nnueMaxPieces v' = nnueMaxPieces_value v"
      "endgameEval v' = endgameEval (set_endgameEval E rm v)"
      "shogiStylePromotions v' = shogiStylePromotions (set_shogiStylePromotions v)"
      "connect_directions v' = connect_directions_value v"
    by (auto simp: conclude_normal_form w_def rm_def split: option.splits)
  have raw: "same_raw v' v"
    using assms by (rule conclude_same_raw)
  then have raw_w: "same_raw v' w"
    by (simp add: w_def)
  have nk: "nnueKing v' = nnueKing w" "nnueUsePockets v' = nnueUsePockets w"
    by (simp_all add: f w_def)
  have pt: "pieceTypes v' = pieceTypes v"
    using raw by (simp add: same_raw_def)
  have 1: "doubleStep (enforce_doubleStep v') = doubleStep v'"
    "doubleStepRegion (enforce_doubleStep v') = doubleStepRegion v'"
    using enforce_doubleStep_cong [of v' "enforce_doubleStep v"]
    by (simp_all add: f enforce_doubleStep_twice)
  have 2: "restrictedMobility_loop v' (pieceTypes v') False = rm"
    by (simp add: rm_def pt restrictedMobility_loop_raw [OF raw])
  have 3: "fastAttacks (set_fastAttacks E rm v') = fastAttacks v'"
    "fastAttacks2 (set_fastAttacks E rm v') = fastAttacks2 v'"
    by (simp_all add: f set_fastAttacks_raw [OF raw])
  have 4: "nnueKing (set_nnueKing E v') = nnueKing v'"
    by (simp add: f set_nnueKing_raw [OF raw])
  have 5: "nnueUsePockets_value v' = nnueUsePockets v'"
    by (simp add: f nnueUsePockets_value_raw [OF raw])
  have 6: "pieceIndex_loop E v' (pieceTypes v') 0 (pieceSquareIndex v', pieceHandIndex v')
             = (pieceSquareIndex v', pieceHandIndex v')"
    unfolding pt pieceIndex_loop_raw [OF raw_w nk] f(7)
    by (rule pieceIndex_loop_twice)
  have "kingSquare_table E v' = kingSquare_table E (w\<lparr>kingSquareIndex := fst st\<rparr>)"
    by (rule kingSquare_table_raw) (simp_all add: raw_w nk f)
  then have 7: "kingSquare_table E v' = Some st"
    by (simp add: kingSquare_table_twice [OF st])
  have 8: "int32 (snd st * nnuePieceIndices v') = nnueDimensions v'"
    by (simp add: f nnuePieceIndices_raw [OF raw_w nk])
  have 9: "nnueMaxPieces_value v' = nnueMaxPieces v'"
    by (simp add: f nnueMaxPieces_value_raw [OF raw])
  have 10: "endgameEval (set_endgameEval E rm v') = endgameEval v'"
    by (simp add: f set_endgameEval_raw [OF raw])
  have 11: "shogiStylePromotions (set_shogiStylePromotions v') = shogiStylePromotions v'"
    by (simp add: f set_shogiStylePromotions_raw [OF raw])
  have 12: "connect_directions_value v' = connect_directions v'"
    by (simp add: f connect_directions_value_raw [OF raw])
  have 13: "fst st = kingSquareIndex v'"
    by (simp add: f)
  show ?thesis
    unfolding conclude_normal_form [of E v'] 1 2 3 4 5
    by (simp add: 6 7 8 9 10 11 12 13)
qed

theorem C3_witness:
  "\<exists>v'. conclude sample_env sample_variant = Some v' \<and> conclude sample_env v' = Some v'"
proof -
  obtain v' where c: "conclude sample_env sample_variant = Some v'"
    using conclude_total [of sample_env sample_variant] by (auto simp: sample_env_def)
  with C3_conclude_idempotent [OF c] show ?thesis
    by simp
qed

end
